theory Spec2Isabelle
  imports Main "HOL-Library.AList"
begin

section \<open>The pending-transaction queue of \<^verbatim>\<open>herder/TransactionQueue.cpp\<close>\<close>

text \<open>
  A shallow embedding of \<^verbatim>\<open>TransactionQueue\<close>. Every function below follows the
  C++ function of the same name statement by statement.

  \<^item> \<^verbatim>\<open>int64_t\<close> values (sequence numbers, fees, balances) are \<open>int\<close>. Signed
    overflow is undefined behaviour in C++. The one sum that a queued transaction can
    drive to it is \<^verbatim>\<open>lastSeq + 1\<close> in \<^verbatim>\<open>findBySeq\<close>, with the last queued sequence number
    at \<^verbatim>\<open>INT64_MAX\<close>: there the embedding takes the value that two's-complement builds
    compute, \<^verbatim>\<open>INT64_MIN\<close> (\<open>int64_succ\<close>), and every theorem that goes through that
    line either assumes a last sequence number below \<^verbatim>\<open>INT64_MAX\<close> or is about that very
    case.
  \<^item> \<^verbatim>\<open>size_t\<close> counters are \<open>int\<close> values kept in \<open>[0, 2^64)\<close>: every unsigned
    operation of the source is followed by \<open>u64\<close>, and the 128-bit products of
    \<^verbatim>\<open>canReplaceByFee\<close> by \<open>u128\<close>. The capacity comparison of \<^verbatim>\<open>canAdd\<close> mixes
    \<^verbatim>\<open>int64_t\<close> with \<^verbatim>\<open>size_t\<close>, so C++ performs it on unsigned 64-bit values.
  \<^item> A failed \<^verbatim>\<open>assert\<close>, and a read the source performs through an iterator or a
    reference that no longer exists, is the result \<open>None\<close>; a function that returns
    \<open>Some\<close> ran to its end.
  \<^item> \<^verbatim>\<open>mAccountStates\<close> is an association list read with \<open>map_of\<close>; its order is the
    iteration order of the container, which only \<^verbatim>\<open>shift\<close> observes.
  \<^item> An iterator into \<^verbatim>\<open>mTransactions\<close> is an index; \<^verbatim>\<open>end()\<close> is the length.
  \<^item> The \<^verbatim>\<open>medida\<close> counters behind \<^verbatim>\<open>mSizeByAge\<close> belong to the application's metrics
    registry and are not part of the embedding.
  \<^item> What a function reads from the application (the validator, balances, the
    operation cap and version of the last closed ledger) is an argument.
\<close>

subsection \<open>Transactions and the ledger, as the queue sees them\<close>

type_synonym AccountID = nat
type_synonym Hash = nat

text \<open>Modelled from the spec: the envelope is a tagged variant of a plain and a fee-bump
  form (the XDR declaration is not among the sources).\<close>

datatype EnvelopeType = ENVELOPE_TYPE_TX | ENVELOPE_TYPE_TX_FEE_BUMP

text \<open>The three codes the queue writes itself; any other code is one the validator wrote.\<close>

datatype TransactionResultCode =
  txBAD_SEQ | txINSUFFICIENT_FEE | txINSUFFICIENT_BALANCE | txValidatorCode nat

datatype AddResult =
  ADD_STATUS_PENDING | ADD_STATUS_DUPLICATE | ADD_STATUS_ERROR | ADD_STATUS_TRY_AGAIN_LATER

text \<open>The attributes of \<^verbatim>\<open>TransactionFrameBase\<close> the queue reads. \<open>getInnerFullHash\<close> is
  only read on a fee-bump envelope.\<close>

record TransactionFrameBase =
  getFullHash :: Hash
  getInnerFullHash :: Hash
  getEnvelopeType :: EnvelopeType
  getSourceID :: AccountID
  getFeeSourceID :: AccountID
  getSeqNum :: int
  getNumOperations :: nat
  getFeeBid :: int

text \<open>The collaborators behind \<^verbatim>\<open>mApp\<close>: \<open>checkValid tx current\<close> returns the verdict and
  the result code it leaves in the transaction, \<open>getAvailableBalance\<close> the spendable
  balance of a loaded account, \<open>getLastMaxTxSetSizeOps\<close> the per-ledger operation cap.\<close>

record LedgerView =
  checkValid :: "TransactionFrameBase \<Rightarrow> int \<Rightarrow> bool \<times> TransactionResultCode"
  getAvailableBalance :: "AccountID \<Rightarrow> int"
  getLastMaxTxSetSizeOps :: int

subsection \<open>The state of the queue\<close>

record AccountState =
  mTotalFees :: int
  mQueueSizeOps :: int
  mAge :: nat
  mTransactions :: "TransactionFrameBase list"

record TransactionQueue =
  mPendingDepth :: nat
  mAccountStates :: "(AccountID \<times> AccountState) list"
  mBannedTransactions :: "Hash set list"
  mLedgerVersion :: nat
  mQueueSizeOps_q :: int
  mPoolLedgerMultiplier :: int

record AccountTxQueueInfo =
  mMaxSeq :: int
  mTotalFees_i :: int
  mQueueSizeOps_i :: int
  mAge_i :: nat

definition u64 :: "int \<Rightarrow> int" where
  "u64 x = x mod 2 ^ 64"

definition INT64_MAX :: int where
  "INT64_MAX = 2 ^ 63 - 1"

definition INT64_MIN :: int where
  "INT64_MIN = - (2 ^ 63)"

text \<open>\<open>x + 1\<close> on an \<^verbatim>\<open>int64_t\<close>.\<close>

definition int64_succ :: "int \<Rightarrow> int" where
  "int64_succ x = (if x = INT64_MAX then INT64_MIN else x + 1)"

definition u128 :: "int \<Rightarrow> int" where
  "u128 x = x mod 2 ^ 128"

text \<open>\<^verbatim>\<open>AccountState{}\<close>: every member value-initialised.\<close>

definition AccountState_new :: AccountState where
  "AccountState_new = \<lparr>mTotalFees = 0, mQueueSizeOps = 0, mAge = 0, mTransactions = []\<rparr>"

text \<open>A loop whose body can fail: the first failure ends it.\<close>

fun forEach :: "('a \<Rightarrow> 's \<Rightarrow> 's option) \<Rightarrow> 'a list \<Rightarrow> 's \<Rightarrow> 's option" where
  "forEach f [] s = Some s"
| "forEach f (x # xs) s = (case f x s of None \<Rightarrow> None | Some s' \<Rightarrow> forEach f xs s')"

subsection \<open>Replace-by-fee, lookup by sequence number, duplicates\<close>

definition FEE_MULTIPLIER :: int where
  "FEE_MULTIPLIER = 10"

text \<open>Modelled from the spec: \<^verbatim>\<open>bigMultiply\<close> (\<^verbatim>\<open>util/numeric\<close>, not among the sources) is
  the widening product of two 64-bit operands in 128 bits.\<close>

definition bigMultiply :: "int \<Rightarrow> int \<Rightarrow> int" where
  "bigMultiply a b = u128 (u64 a * u64 b)"

definition canReplaceByFee :: "TransactionFrameBase \<Rightarrow> TransactionFrameBase \<Rightarrow> bool" where
  "canReplaceByFee tx oldTx =
     (let newFee = getFeeBid tx;
          newNumOps = max 1 (getNumOperations tx);
          oldFee = getFeeBid oldTx;
          oldNumOps = max 1 (getNumOperations oldTx);
          v1 = bigMultiply newFee (int oldNumOps);
          v2 = bigMultiply oldFee (int newNumOps)
      in v1 \<ge> u128 (FEE_MULTIPLIER * v2))"

text \<open>\<^verbatim>\<open>findBySeq\<close> returns its verdict and the iterator it leaves in \<open>iter\<close> (untouched
  when the verdict is false). Both \<^verbatim>\<open>assert\<close>s are checked.\<close>

definition findBySeq ::
  "int \<Rightarrow> TransactionFrameBase list \<Rightarrow> nat \<Rightarrow> (bool \<times> nat) option" where
  "findBySeq seq transactions iter =
     (if transactions = [] then None
      else
        let firstSeq = getSeqNum (hd transactions);
            lastSeq = getSeqNum (last transactions)
        in if seq < firstSeq \<or> seq > int64_succ lastSeq then Some (False, iter)
           else if \<not> seq - firstSeq \<le> int (length transactions) then None
           else
             let iter' = nat (seq - firstSeq)
             in if \<not> (iter' = length transactions \<or> getSeqNum (transactions ! iter') = seq)
                then None
                else Some (True, iter'))"

definition isDuplicateTx :: "TransactionFrameBase \<Rightarrow> TransactionFrameBase \<Rightarrow> bool" where
  "isDuplicateTx oldTx newTx =
     (if getEnvelopeType oldTx = getEnvelopeType newTx
      then getFullHash oldTx = getFullHash newTx
      else if getEnvelopeType oldTx = ENVELOPE_TYPE_TX_FEE_BUMP
      then getInnerFullHash oldTx = getFullHash newTx
      else False)"

subsection \<open>The ban ring\<close>

definition isBanned :: "TransactionQueue \<Rightarrow> Hash \<Rightarrow> bool" where
  "isBanned q hash = list_ex (\<lambda>transactions. hash \<in> transactions) (mBannedTransactions q)"

definition countBanned :: "TransactionQueue \<Rightarrow> nat \<Rightarrow> nat option" where
  "countBanned q index =
     (if index < length (mBannedTransactions q)
      then Some (card (mBannedTransactions q ! index)) else None)"

text \<open>\<^verbatim>\<open>bannedFront.emplace(h)\<close>, for \<open>bannedFront\<close> the front slot of the ring.\<close>

definition bannedFront_emplace :: "Hash \<Rightarrow> TransactionQueue \<Rightarrow> TransactionQueue option" where
  "bannedFront_emplace h q =
     (case mBannedTransactions q of
        [] \<Rightarrow> None
      | front # rest \<Rightarrow> Some (q\<lparr>mBannedTransactions := insert h front # rest\<rparr>))"

subsection \<open>Releasing fees and dropping transactions\<close>

definition releaseFeeMaybeEraseAccountState ::
  "TransactionFrameBase \<Rightarrow> TransactionQueue \<Rightarrow> TransactionQueue option" where
  "releaseFeeMaybeEraseAccountState tx q =
     (case map_of (mAccountStates q) (getFeeSourceID tx) of
        None \<Rightarrow> None
      | Some st \<Rightarrow>
          if \<not> mTotalFees st \<ge> getFeeBid tx then None
          else
            let st' = st\<lparr>mTotalFees := mTotalFees st - getFeeBid tx\<rparr>
            in if mTransactions st' = [] \<and> mTotalFees st' = 0
               then Some (q\<lparr>mAccountStates := AList.delete (getFeeSourceID tx) (mAccountStates q)\<rparr>)
               else Some (q\<lparr>mAccountStates :=
                              AList.update (getFeeSourceID tx) st' (mAccountStates q)\<rparr>))"

text \<open>The body of the first loop of \<^verbatim>\<open>dropTransactions\<close>, for the account \<open>k\<close> that
  \<^verbatim>\<open>stateIter\<close> points to.\<close>

definition dropOne ::
  "AccountID \<Rightarrow> TransactionFrameBase \<Rightarrow> TransactionQueue \<Rightarrow> TransactionQueue option" where
  "dropOne k tx q =
     (case map_of (mAccountStates q) k of
        None \<Rightarrow> None
      | Some st \<Rightarrow>
          releaseFeeMaybeEraseAccountState tx
            (q\<lparr>mAccountStates :=
                  AList.update k
                    (st\<lparr>mQueueSizeOps := u64 (mQueueSizeOps st - int (getNumOperations tx))\<rparr>)
                    (mAccountStates q),
               mQueueSizeOps_q := u64 (mQueueSizeOps_q q - int (getNumOperations tx))\<rparr>))"

text \<open>\<^verbatim>\<open>dropTransactions(stateIter, begin, end)\<close> with \<open>k\<close> the key of \<^verbatim>\<open>stateIter\<close> and
  the range given by the indices \<open>b\<close> and \<open>e\<close>.\<close>

definition dropTransactions ::
  "AccountID \<Rightarrow> nat \<Rightarrow> nat \<Rightarrow> TransactionQueue \<Rightarrow> TransactionQueue option" where
  "dropTransactions k b e q =
     (case map_of (mAccountStates q) k of
        None \<Rightarrow> None
      | Some st \<Rightarrow>
          (case forEach (dropOne k) (take (e - b) (drop b (mTransactions st))) q of
             None \<Rightarrow> None
           | Some q1 \<Rightarrow>
               (case map_of (mAccountStates q1) k of
                  None \<Rightarrow> None
                | Some st1 \<Rightarrow>
                    let st2 = st1\<lparr>mTransactions :=
                                    take b (mTransactions st1) @ drop e (mTransactions st1)\<rparr>
                    in if mTransactions st2 = []
                       then if mTotalFees st2 = 0
                            then Some (q1\<lparr>mAccountStates := AList.delete k (mAccountStates q1)\<rparr>)
                            else Some (q1\<lparr>mAccountStates :=
                                            AList.update k (st2\<lparr>mAge := 0\<rparr>) (mAccountStates q1)\<rparr>)
                       else Some (q1\<lparr>mAccountStates := AList.update k st2 (mAccountStates q1)\<rparr>))))"

subsection \<open>Explicit bans\<close>

text \<open>\<^verbatim>\<open>findTx\<close>: \<open>txIter\<close> moves only when the slot found by sequence number holds the
  same full hash.\<close>

definition findTx ::
  "TransactionFrameBase \<Rightarrow> TransactionFrameBase list \<Rightarrow> nat \<Rightarrow> nat option" where
  "findTx tx transactions txIter =
     (case findBySeq (getSeqNum tx) transactions (length transactions) of
        None \<Rightarrow> None
      | Some (found, iter) \<Rightarrow>
          if iter \<noteq> length transactions \<and> getFullHash (transactions ! iter) = getFullHash tx
          then Some iter else Some txIter)"

text \<open>The search for the banned transaction of lowest sequence number (the loop over
  \<^verbatim>\<open>kv.second\<close>).\<close>

definition banSearch ::
  "TransactionFrameBase list \<Rightarrow> TransactionFrameBase \<Rightarrow> nat \<Rightarrow> nat option" where
  "banSearch transactions tx txIter =
     (if txIter = length transactions \<or> getSeqNum tx < getSeqNum (transactions ! txIter)
      then findTx tx transactions txIter else Some txIter)"

text \<open>The body of the second loop of \<^verbatim>\<open>ban\<close>, for one entry \<open>(k, txs)\<close> of
  \<^verbatim>\<open>transactionsByAccount\<close>.\<close>

definition banAccount ::
  "AccountID \<times> TransactionFrameBase list \<Rightarrow> TransactionQueue \<Rightarrow> TransactionQueue option" where
  "banAccount kv q =
     (case map_of (mAccountStates q) (fst kv) of
        None \<Rightarrow> Some q
      | Some st \<Rightarrow>
          let transactions = mTransactions st
          in if transactions = [] then Some q
             else
               (case forEach (banSearch transactions) (snd kv) (length transactions) of
                  None \<Rightarrow> None
                | Some txIter \<Rightarrow>
                    (case forEach (\<lambda>t. bannedFront_emplace (getFullHash t))
                            (drop txIter transactions) q of
                       None \<Rightarrow> None
                     | Some q1 \<Rightarrow> dropTransactions (fst kv) txIter (length transactions) q1)))"

text \<open>\<^verbatim>\<open>transactionsByAccount\<close> is a \<^verbatim>\<open>std::map\<close>: one entry per source account, in key
  order, holding that account's transactions in the order given.\<close>

definition transactionsByAccount ::
  "TransactionFrameBase list \<Rightarrow> (AccountID \<times> TransactionFrameBase list) list" where
  "transactionsByAccount banTxs =
     map (\<lambda>k. (k, filter (\<lambda>tx. getSourceID tx = k) banTxs))
       (sort (remdups (map getSourceID banTxs)))"

definition ban :: "TransactionFrameBase list \<Rightarrow> TransactionQueue \<Rightarrow> TransactionQueue option" where
  "ban banTxs q =
     (if mBannedTransactions q = [] then None
      else
        (case forEach (\<lambda>tx. bannedFront_emplace (getFullHash tx)) banTxs q of
           None \<Rightarrow> None
         | Some q1 \<Rightarrow> forEach banAccount (transactionsByAccount banTxs) q1))"

subsection \<open>Admission\<close>

definition maxQueueSizeOps :: "LedgerView \<Rightarrow> TransactionQueue \<Rightarrow> int" where
  "maxQueueSizeOps lv q = u64 (u64 (getLastMaxTxSetSizeOps lv) * u64 (mPoolLedgerMultiplier q))"

text \<open>What lines 116--174 of \<^verbatim>\<open>canAdd\<close> leave behind: an early return with the result
  and the code written to the transaction, or the locals \<open>netFee\<close>, \<open>netOps\<close>,
  \<open>seqNum\<close> and the iterator \<open>oldTxIter\<close>.\<close>

datatype Located =
  Rejected AddResult "TransactionResultCode option"
| Proceed int int int nat

definition canAddLocate :: "TransactionFrameBase \<Rightarrow> TransactionQueue \<Rightarrow> Located option" where
  "canAddLocate tx q =
     (let netFee = getFeeBid tx;
          netOps = int (getNumOperations tx)
      in case map_of (mAccountStates q) (getSourceID tx) of
           None \<Rightarrow> Some (Proceed netFee netOps 0 0)
         | Some st \<Rightarrow>
             let transactions = mTransactions st;
                 endIter = length transactions
             in if transactions = [] then Some (Proceed netFee netOps 0 endIter)
                else if getEnvelopeType tx \<noteq> ENVELOPE_TYPE_TX_FEE_BUMP then
                  (case findBySeq (getSeqNum tx) transactions endIter of
                     None \<Rightarrow> None
                   | Some (found, iter) \<Rightarrow>
                       if found \<and> iter \<noteq> endIter \<and> isDuplicateTx (transactions ! iter) tx
                       then Some (Rejected ADD_STATUS_DUPLICATE None)
                       else Some (Proceed netFee netOps (getSeqNum (last transactions)) endIter))
                else
                  (case findBySeq (getSeqNum tx) transactions endIter of
                     None \<Rightarrow> None
                   | Some (found, oldTxIter) \<Rightarrow>
                       if \<not> found then Some (Rejected ADD_STATUS_ERROR (Some txBAD_SEQ))
                       else if oldTxIter \<noteq> endIter then
                         let oldTx = transactions ! oldTxIter
                         in if isDuplicateTx oldTx tx
                            then Some (Rejected ADD_STATUS_DUPLICATE None)
                            else if \<not> canReplaceByFee tx oldTx
                            then Some (Rejected ADD_STATUS_ERROR (Some txINSUFFICIENT_FEE))
                            else Some (Proceed
                                   (if getFeeSourceID oldTx = getFeeSourceID tx
                                    then netFee - getFeeBid oldTx else netFee)
                                   (netOps - int (getNumOperations oldTx))
                                   (getSeqNum tx - 1) oldTxIter)
                       else Some (Proceed netFee netOps (getSeqNum tx - 1) oldTxIter)))"

text \<open>\<^verbatim>\<open>canAdd\<close> returns the result, the code left in the transaction (if one was
  written), the queue (which \<^verbatim>\<open>ban\<close> may have changed) and \<open>oldTxIter\<close>; \<open>stateIter\<close>
  is the entry of the source account and is looked up again by the caller.\<close>

definition canAdd ::
  "LedgerView \<Rightarrow> TransactionFrameBase \<Rightarrow> TransactionQueue \<Rightarrow>
     (AddResult \<times> TransactionResultCode option \<times> TransactionQueue \<times> nat) option" where
  "canAdd lv tx q =
     (if isBanned q (getFullHash tx) then Some (ADD_STATUS_TRY_AGAIN_LATER, None, q, 0)
      else
        (case canAddLocate tx q of
           None \<Rightarrow> None
         | Some (Rejected res code) \<Rightarrow> Some (res, code, q, 0)
         | Some (Proceed netFee netOps seqNum oldTxIter) \<Rightarrow>
             if u64 (netOps + mQueueSizeOps_q q) > maxQueueSizeOps lv q then
               (case ban [tx] q of
                  None \<Rightarrow> None
                | Some q1 \<Rightarrow> Some (ADD_STATUS_TRY_AGAIN_LATER, None, q1, oldTxIter))
             else if \<not> fst (checkValid lv tx seqNum)
             then Some (ADD_STATUS_ERROR, Some (snd (checkValid lv tx seqNum)), q, oldTxIter)
             else
               let totalFees =
                     (case map_of (mAccountStates q) (getFeeSourceID tx) of
                        None \<Rightarrow> 0 | Some feeState \<Rightarrow> mTotalFees feeState)
               in if getAvailableBalance lv (getFeeSourceID tx) - netFee < totalFees
                  then Some (ADD_STATUS_ERROR, Some txINSUFFICIENT_BALANCE, q, oldTxIter)
                  else Some (ADD_STATUS_PENDING, Some (snd (checkValid lv tx seqNum)), q,
                             oldTxIter)))"

text \<open>The replacement branch of \<^verbatim>\<open>tryAdd\<close> (lines 241--244) for the source account
  \<open>k\<close>.\<close>

definition tryAddReplace ::
  "AccountID \<Rightarrow> nat \<Rightarrow> TransactionFrameBase \<Rightarrow> TransactionQueue \<Rightarrow> TransactionQueue option" where
  "tryAddReplace k oldTxIter tx q =
     (case map_of (mAccountStates q) k of
        None \<Rightarrow> None
      | Some st \<Rightarrow>
          let oldTx = mTransactions st ! oldTxIter
          in (case releaseFeeMaybeEraseAccountState oldTx q of
                None \<Rightarrow> None
              | Some q1 \<Rightarrow>
                  (case map_of (mAccountStates q1) k of
                     None \<Rightarrow> None
                   | Some st1 \<Rightarrow>
                       Some (q1\<lparr>mAccountStates :=
                                  AList.update k
                                    (st1\<lparr>mQueueSizeOps :=
                                            u64 (mQueueSizeOps st1 - int (getNumOperations oldTx)),
                                          mTransactions := (mTransactions st1)[oldTxIter := tx]\<rparr>)
                                    (mAccountStates q1),
                                mQueueSizeOps_q :=
                                  u64 (mQueueSizeOps_q q1 - int (getNumOperations oldTx))\<rparr>))))"

text \<open>The append branch (line 248).\<close>

definition tryAddAppend ::
  "AccountID \<Rightarrow> TransactionFrameBase \<Rightarrow> TransactionQueue \<Rightarrow> TransactionQueue option" where
  "tryAddAppend k tx q =
     (case map_of (mAccountStates q) k of
        None \<Rightarrow> None
      | Some st \<Rightarrow>
          Some (q\<lparr>mAccountStates :=
                    AList.update k (st\<lparr>mTransactions := mTransactions st @ [tx]\<rparr>)
                      (mAccountStates q)\<rparr>))"

text \<open>Lines 251--253: the counters and the fee reservation; \<^verbatim>\<open>operator[]\<close> creates the
  entry of the fee source when it is missing.\<close>

definition tryAddCount ::
  "AccountID \<Rightarrow> TransactionFrameBase \<Rightarrow> TransactionQueue \<Rightarrow> TransactionQueue option" where
  "tryAddCount k tx q =
     (case map_of (mAccountStates q) k of
        None \<Rightarrow> None
      | Some st \<Rightarrow>
          let accs = AList.update k
                       (st\<lparr>mQueueSizeOps := u64 (mQueueSizeOps st + int (getNumOperations tx))\<rparr>)
                       (mAccountStates q);
              feeState = (case map_of accs (getFeeSourceID tx) of
                            None \<Rightarrow> AccountState_new | Some s \<Rightarrow> s)
          in Some (q\<lparr>mAccountStates :=
                       AList.update (getFeeSourceID tx)
                         (feeState\<lparr>mTotalFees := mTotalFees feeState + getFeeBid tx\<rparr>) accs,
                     mQueueSizeOps_q := u64 (mQueueSizeOps_q q + int (getNumOperations tx))\<rparr>))"

definition tryAdd ::
  "LedgerView \<Rightarrow> TransactionFrameBase \<Rightarrow> TransactionQueue \<Rightarrow>
     (AddResult \<times> TransactionResultCode option \<times> TransactionQueue) option" where
  "tryAdd lv tx q =
     (case canAdd lv tx q of
        None \<Rightarrow> None
      | Some (res, code, q1, oldTxIter0) \<Rightarrow>
          if res \<noteq> ADD_STATUS_PENDING then Some (res, code, q1)
          else
            let k = getSourceID tx;
                present = (map_of (mAccountStates q1) k \<noteq> None);
                q2 = (if present then q1
                      else q1\<lparr>mAccountStates :=
                                AList.update k AccountState_new (mAccountStates q1)\<rparr>);
                oldTxIter = (if present then oldTxIter0 else 0)
            in (case map_of (mAccountStates q2) k of
                  None \<Rightarrow> None
                | Some st \<Rightarrow>
                    (case (if oldTxIter \<noteq> length (mTransactions st)
                           then tryAddReplace k oldTxIter tx q2
                           else tryAddAppend k tx q2) of
                       None \<Rightarrow> None
                     | Some q3 \<Rightarrow>
                         (case tryAddCount k tx q3 of
                            None \<Rightarrow> None
                          | Some q4 \<Rightarrow> Some (res, code, q4)))))"

subsection \<open>Ledger close: applied transactions and ageing\<close>

text \<open>\<^verbatim>\<open>seqByAccount\<close> is a \<^verbatim>\<open>std::map\<close> whose values start at 0.\<close>

definition seqByAccount :: "TransactionFrameBase list \<Rightarrow> (AccountID \<times> int) list" where
  "seqByAccount appliedTxs =
     map (\<lambda>k. (k, fold (\<lambda>tx seq. max seq (getSeqNum tx))
                      (filter (\<lambda>tx. getSourceID tx = k) appliedTxs) 0))
       (sort (remdups (map getSourceID appliedTxs)))"

text \<open>The body of the second loop of \<^verbatim>\<open>removeApplied\<close>.\<close>

definition removeAppliedAccount ::
  "AccountID \<times> int \<Rightarrow> TransactionQueue \<Rightarrow> TransactionQueue option" where
  "removeAppliedAccount kv q =
     (case map_of (mAccountStates q) (fst kv) of
        None \<Rightarrow> Some q
      | Some st \<Rightarrow>
          let transactions = mTransactions st
          in if transactions = [] then Some q
             else if getSeqNum (hd transactions) \<le> snd kv then
               (case findBySeq (snd kv) transactions (length transactions) of
                  None \<Rightarrow> None
                | Some (found, iter) \<Rightarrow>
                    let txIter = (if iter \<noteq> length transactions then iter + 1 else iter)
                    in dropTransactions (fst kv) 0 txIter
                         (q\<lparr>mAccountStates :=
                               AList.update (fst kv) (st\<lparr>mAge := 0\<rparr>) (mAccountStates q)\<rparr>))
             else Some q)"

definition removeApplied ::
  "TransactionFrameBase list \<Rightarrow> TransactionQueue \<Rightarrow> TransactionQueue option" where
  "removeApplied appliedTxs q = forEach removeAppliedAccount (seqByAccount appliedTxs) q"

text \<open>The body of the loop over \<^verbatim>\<open>toBan\<close> in \<^verbatim>\<open>shift\<close>.\<close>

definition shiftEvict :: "TransactionFrameBase \<Rightarrow> TransactionQueue \<Rightarrow> TransactionQueue option" where
  "shiftEvict toBan q =
     (case releaseFeeMaybeEraseAccountState toBan q of
        None \<Rightarrow> None
      | Some q1 \<Rightarrow> bannedFront_emplace (getFullHash toBan) q1)"

text \<open>The body of the \<^verbatim>\<open>while\<close> loop of \<^verbatim>\<open>shift\<close> for the entry with key \<open>k\<close>; an entry
  erased earlier in the same call is not visited.\<close>

definition shiftAccount :: "AccountID \<Rightarrow> TransactionQueue \<Rightarrow> TransactionQueue option" where
  "shiftAccount k q =
     (case map_of (mAccountStates q) k of
        None \<Rightarrow> Some q
      | Some st \<Rightarrow>
          let st1 = (if mTransactions st \<noteq> [] then st\<lparr>mAge := mAge st + 1\<rparr> else st);
              q1 = q\<lparr>mAccountStates := AList.update k st1 (mAccountStates q)\<rparr>
          in if mPendingDepth q = mAge st1 then
               (case forEach shiftEvict (mTransactions st1) q1 of
                  None \<Rightarrow> None
                | Some q2 \<Rightarrow>
                    (case map_of (mAccountStates q2) k of
                       None \<Rightarrow> None
                     | Some st2 \<Rightarrow>
                         let q3 = q2\<lparr>mQueueSizeOps_q :=
                                       u64 (mQueueSizeOps_q q2 - mQueueSizeOps st2)\<rparr>;
                             st3 = st2\<lparr>mQueueSizeOps := 0, mTransactions := []\<rparr>
                         in if mTotalFees st3 = 0
                            then Some (q3\<lparr>mAccountStates :=
                                            AList.delete k (mAccountStates q3)\<rparr>)
                            else Some (q3\<lparr>mAccountStates :=
                                            AList.update k (st3\<lparr>mAge := 0\<rparr>)
                                              (mAccountStates q3)\<rparr>)))
             else Some q1)"

definition shift :: "TransactionQueue \<Rightarrow> TransactionQueue option" where
  "shift q =
     (if mBannedTransactions q = [] then None
      else
        let q1 = q\<lparr>mBannedTransactions := {} # butlast (mBannedTransactions q)\<rparr>
        in forEach shiftAccount (map fst (mAccountStates q1)) q1)"

text \<open>\<^verbatim>\<open>maybeVersionUpgraded\<close>. The version of the last closed ledger is read from the
  application and is the argument \<open>lclVersion\<close>. \<^verbatim>\<open>txbridge::convertForV13\<close> followed by
  \<^verbatim>\<open>TransactionFrame::makeTransactionFromWire\<close> is not part of the excerpt and is the
  argument \<open>convertForV13\<close>. On the upgrade to version 13 every slot of the ban ring is
  cleared and every queued transaction is replaced by its conversion.\<close>

record ReplacedTransaction =
  mOld :: TransactionFrameBase
  mNew :: TransactionFrameBase

definition maybeVersionUpgraded ::
  "nat \<Rightarrow> (TransactionFrameBase \<Rightarrow> TransactionFrameBase) \<Rightarrow> TransactionQueue \<Rightarrow>
     ReplacedTransaction list \<times> TransactionQueue" where
  "maybeVersionUpgraded lclVersion convertForV13 q =
     (if mLedgerVersion q < 13 \<and> lclVersion \<ge> 13 then
        (concat (map (\<lambda>kv. map (\<lambda>txFrame. \<lparr>mOld = txFrame, mNew = convertForV13 txFrame\<rparr>)
                              (mTransactions (snd kv)))
                   (mAccountStates q)),
         q\<lparr>mBannedTransactions := map (\<lambda>banned. {}) (mBannedTransactions q),
           mAccountStates :=
             map (\<lambda>kv. (fst kv, (snd kv)\<lparr>mTransactions :=
                                            map convertForV13 (mTransactions (snd kv))\<rparr>))
               (mAccountStates q),
           mLedgerVersion := lclVersion\<rparr>)
      else ([], q\<lparr>mLedgerVersion := lclVersion\<rparr>))"

subsection \<open>Projection\<close>

definition getAccountTransactionQueueInfo ::
  "TransactionQueue \<Rightarrow> AccountID \<Rightarrow> AccountTxQueueInfo" where
  "getAccountTransactionQueueInfo q accountID =
     (case map_of (mAccountStates q) accountID of
        None \<Rightarrow> \<lparr>mMaxSeq = 0, mTotalFees_i = 0, mQueueSizeOps_i = 0, mAge_i = 0\<rparr>
      | Some st \<Rightarrow>
          \<lparr>mMaxSeq = (if mTransactions st = [] then 0 else getSeqNum (last (mTransactions st))),
           mTotalFees_i = mTotalFees st,
           mQueueSizeOps_i = mQueueSizeOps st,
           mAge_i = mAge st\<rparr>)"

text \<open>\<^verbatim>\<open>operator==\<close> on \<^verbatim>\<open>AccountTxQueueInfo\<close>.\<close>

definition AccountTxQueueInfo_eq :: "AccountTxQueueInfo \<Rightarrow> AccountTxQueueInfo \<Rightarrow> bool" where
  "AccountTxQueueInfo_eq x y \<longleftrightarrow>
     mMaxSeq x = mMaxSeq y \<and> mTotalFees_i x = mTotalFees_i y
     \<and> mQueueSizeOps_i x = mQueueSizeOps_i y"

subsection \<open>Invariants of the data model\<close>

text \<open>Invariant 4: within the queue of an account the sequence numbers increase by one
  from each transaction to the next.\<close>

fun contiguous :: "TransactionFrameBase list \<Rightarrow> bool" where
  "contiguous [] = True"
| "contiguous [t] = True"
| "contiguous (t # u # ts) = (getSeqNum u = getSeqNum t + 1 \<and> contiguous (u # ts))"

text \<open>Invariant 3 speaks of the fees that queued transactions reserve on an account:
  \<open>feesOn b ts\<close> is the sum of the fee bids of the transactions of \<open>ts\<close> whose fee
  source is \<open>b\<close>.\<close>

definition feesOn :: "AccountID \<Rightarrow> TransactionFrameBase list \<Rightarrow> int" where
  "feesOn b ts = sum_list (map getFeeBid (filter (\<lambda>t. getFeeSourceID t = b) ts))"

text \<open>Invariant 2 speaks of the operations of queued transactions: \<open>opsOf ts\<close> is the sum
  of the operation counts of \<open>ts\<close>.\<close>

definition opsOf :: "TransactionFrameBase list \<Rightarrow> int" where
  "opsOf ts = sum_list (map (\<lambda>t. int (getNumOperations t)) ts)"

text \<open>The entry \<open>sb\<close> of account \<open>b\<close> after the fees of \<open>ts\<close> have been released one by
  one (section 4.2 of the spec): the entry is gone when it holds no transaction and the
  last release on it brings its total to 0.\<close>

definition released :: "AccountID \<Rightarrow> TransactionFrameBase list \<Rightarrow> AccountState \<Rightarrow> AccountState option" where
  "released b ts sb =
     (if mTransactions sb = [] \<and> (\<exists>t \<in> set ts. getFeeSourceID t = b)
         \<and> mTotalFees sb = feesOn b ts
      then None else Some (sb\<lparr>mTotalFees := mTotalFees sb - feesOn b ts\<rparr>))"

text \<open>All queued transactions.\<close>

definition queued :: "TransactionQueue \<Rightarrow> TransactionFrameBase list" where
  "queued q = concat (map (\<lambda>kv. mTransactions (snd kv)) (mAccountStates q))"

subsection \<open>Sequences of calls\<close>

text \<open>The operations that change the queue, as the herder calls them one after the
  other, and the queue after a sequence of calls (\<open>None\<close> when one of them does not
  return).\<close>

datatype Call =
  TryAdd LedgerView TransactionFrameBase
| RemoveApplied "TransactionFrameBase list"
| Ban "TransactionFrameBase list"
| Shift
| MaybeVersionUpgraded nat "TransactionFrameBase \<Rightarrow> TransactionFrameBase"

fun call :: "Call \<Rightarrow> TransactionQueue \<Rightarrow> TransactionQueue option" where
  "call (TryAdd lv tx) q = map_option (\<lambda>r. snd (snd r)) (tryAdd lv tx q)"
| "call (RemoveApplied appliedTxs) q = removeApplied appliedTxs q"
| "call (Ban banTxs) q = ban banTxs q"
| "call Shift q = shift q"
| "call (MaybeVersionUpgraded lclVersion convertForV13) q
     = Some (snd (maybeVersionUpgraded lclVersion convertForV13 q))"

definition calls :: "Call list \<Rightarrow> TransactionQueue \<Rightarrow> TransactionQueue option" where
  "calls cs q = forEach call cs q"

text \<open>The number of calls of \<^verbatim>\<open>shift\<close> in a sequence.\<close>

fun shiftCalls :: "Call list \<Rightarrow> nat" where
  "shiftCalls [] = 0"
| "shiftCalls (Shift # cs) = Suc (shiftCalls cs)"
| "shiftCalls (c # cs) = shiftCalls cs"

text \<open>\<open>clears cs q\<close>: along the calls \<open>cs\<close> from \<open>q\<close>, some \<^verbatim>\<open>maybeVersionUpgraded\<close> sees the
  upgrade to version 13 and clears the ban ring.\<close>

fun upgrades :: "Call \<Rightarrow> TransactionQueue \<Rightarrow> bool" where
  "upgrades (MaybeVersionUpgraded lclVersion convertForV13) q
     = (mLedgerVersion q < 13 \<and> lclVersion \<ge> 13)"
| "upgrades c q = False"

fun clears :: "Call list \<Rightarrow> TransactionQueue \<Rightarrow> bool" where
  "clears [] q = False"
| "clears (c # cs) q =
     (upgrades c q \<or> (case call c q of None \<Rightarrow> False | Some q1 \<Rightarrow> clears cs q1))"

text \<open>\<open>reinserts h cs q\<close>: along the calls \<open>cs\<close> from \<open>q\<close>, some call puts the hash \<open>h\<close>
  into the front slot of the ring: a \<^verbatim>\<open>shift\<close> that evicts a transaction with this hash,
  or a ban (explicit, or by the capacity check) that finds the front slot without it.\<close>

definition bannedFront :: "TransactionQueue \<Rightarrow> Hash set" where
  "bannedFront q = (case mBannedTransactions q of [] \<Rightarrow> {} | front # rest \<Rightarrow> front)"

fun isShift :: "Call \<Rightarrow> bool" where
  "isShift Shift = True"
| "isShift c = False"

fun reinserts :: "Hash \<Rightarrow> Call list \<Rightarrow> TransactionQueue \<Rightarrow> bool" where
  "reinserts h [] q = False"
| "reinserts h (c # cs) q =
     (case call c q of
        None \<Rightarrow> False
      | Some q1 \<Rightarrow>
          (h \<in> bannedFront q1 \<and> (isShift c \<or> h \<notin> bannedFront q)) \<or> reinserts h cs q1)"

subsection \<open>Scenario data\<close>

definition plainTx ::
  "Hash \<Rightarrow> AccountID \<Rightarrow> AccountID \<Rightarrow> int \<Rightarrow> nat \<Rightarrow> int \<Rightarrow> TransactionFrameBase" where
  "plainTx h src fs seq ops fee =
     \<lparr>getFullHash = h, getInnerFullHash = 0, getEnvelopeType = ENVELOPE_TYPE_TX,
      getSourceID = src, getFeeSourceID = fs, getSeqNum = seq, getNumOperations = ops,
      getFeeBid = fee\<rparr>"

definition feeBumpTx ::
  "Hash \<Rightarrow> Hash \<Rightarrow> AccountID \<Rightarrow> AccountID \<Rightarrow> int \<Rightarrow> nat \<Rightarrow> int \<Rightarrow> TransactionFrameBase" where
  "feeBumpTx h inner src fs seq ops fee =
     \<lparr>getFullHash = h, getInnerFullHash = inner, getEnvelopeType = ENVELOPE_TYPE_TX_FEE_BUMP,
      getSourceID = src, getFeeSourceID = fs, getSeqNum = seq, getNumOperations = ops,
      getFeeBid = fee\<rparr>"

text \<open>A ledger whose validator only checks the sequence number (against the account's
  own number, here 4, when \<open>current\<close> is 0), where every account can spend 1000 and a
  ledger holds 100 operations.\<close>

definition ledger0 :: LedgerView where
  "ledger0 =
     \<lparr>checkValid = (\<lambda>tx current.
         if getSeqNum tx = (if current = 0 then 4 else current) + 1
         then (True, txValidatorCode 0) else (False, txBAD_SEQ)),
      getAvailableBalance = (\<lambda>a. 1000),
      getLastMaxTxSetSizeOps = 100\<rparr>"

definition queueOf ::
  "(AccountID \<times> AccountState) list \<Rightarrow> Hash set list \<Rightarrow> int \<Rightarrow> TransactionQueue" where
  "queueOf accounts ring ops =
     \<lparr>mPendingDepth = 4, mAccountStates = accounts, mBannedTransactions = ring,
      mLedgerVersion = 13, mQueueSizeOps_q = ops, mPoolLedgerMultiplier = 2\<rparr>"

definition stateOf :: "int \<Rightarrow> int \<Rightarrow> nat \<Rightarrow> TransactionFrameBase list \<Rightarrow> AccountState" where
  "stateOf fees ops age txs =
     \<lparr>mTotalFees = fees, mQueueSizeOps = ops, mAge = age, mTransactions = txs\<rparr>"

text \<open>Scenario 1 of the spec: account 1 holds one transaction with sequence number 5, one
  operation and a fee of 100.\<close>

definition tx5 :: TransactionFrameBase where
  "tx5 = plainTx 11 1 1 5 1 100"

definition queue1 :: TransactionQueue where
  "queue1 = queueOf [(1, stateOf 100 1 0 [tx5])] [{}, {}] 1"

text \<open>The same queue with the hash 77 in the front slot of the ban ring.\<close>

definition queueB :: TransactionQueue where
  "queueB = queueOf [(1, stateOf 100 1 0 [tx5])] [{77}, {}] 1"


text \<open>A queue that holds as many operations as the pool admits (twice 100).\<close>

definition queueFull :: TransactionQueue where
  "queueFull = queueOf [(1, stateOf 100 200 0 [plainTx 31 1 1 5 200 100])] [{}, {}] 200"

text \<open>\<open>queue1\<close> after the ban of an unqueued transaction with hash 40.\<close>

definition queueBan0 :: TransactionQueue where
  "queueBan0 = queueOf [(1, stateOf 100 1 0 [tx5])] [{40}, {}] 1"

text \<open>Scenario 6 of the spec, one \<^verbatim>\<open>shift\<close> before the eviction: account 1 has age 3 and
  its transaction is paid for by account 2.\<close>

definition queueAged :: TransactionQueue where
  "queueAged = queueOf [(1, stateOf 0 1 3 [plainTx 21 1 2 5 1 600]), (2, stateOf 600 0 0 [])]
                 [{}, {}] 1"

text \<open>Scenario 7 of the spec: account 1 holds the sequence numbers 7, 8 and 9.\<close>

definition queue789 :: TransactionQueue where
  "queue789 = queueOf [(1, stateOf 300 3 2
                 [plainTx 61 1 1 7 1 100, plainTx 62 1 1 8 1 100, plainTx 63 1 1 9 1 100])]
                [{}, {}] 3"

text \<open>Account 1 holds sequence number 7 and also pays the fee of the transaction queued
  by account 3.\<close>

definition queuePaid :: TransactionQueue where
  "queuePaid = queueOf [(1, stateOf 15 1 0 [plainTx 51 1 1 7 1 10]),
                        (3, stateOf 0 1 0 [plainTx 52 3 1 1 1 5])] [{}, {}] 2"

text \<open>\<open>queue1\<close> as it is before the upgrade to version 13.\<close>

definition queueV12 :: TransactionQueue where
  "queueV12 = queue1\<lparr>mLedgerVersion := 12\<rparr>"

text \<open>Account 1 holds a fee bump with sequence number 5.\<close>

definition bump5 :: TransactionFrameBase where
  "bump5 = feeBumpTx 12 11 1 1 5 1 100"

definition queueBump :: TransactionQueue where
  "queueBump = queueOf [(1, stateOf 100 1 0 [bump5])] [{}, {}] 1"

text \<open>A ledger on which the sequence number of every account is \<^verbatim>\<open>INT64_MAX - 1\<close>; its
  validator refuses the sequence number \<^verbatim>\<open>INT64_MAX\<close> for \<open>current\<close>, as nothing can
  follow it.\<close>

definition ledgerMax :: LedgerView where
  "ledgerMax =
     \<lparr>checkValid = (\<lambda>tx current.
         if current \<noteq> INT64_MAX
            \<and> getSeqNum tx = (if current = 0 then INT64_MAX - 1 else current) + 1
         then (True, txValidatorCode 0) else (False, txBAD_SEQ)),
      getAvailableBalance = (\<lambda>a. 1000),
      getLastMaxTxSetSizeOps = 100\<rparr>"

section \<open>Properties\<close>

subsection \<open>Arithmetic of the fee comparison\<close>

lemma u64_id: "0 \<le> x \<Longrightarrow> x < 2 ^ 64 \<Longrightarrow> u64 x = x"
  by (simp add: u64_def)

lemma u128_id: "0 \<le> x \<Longrightarrow> x < 2 ^ 128 \<Longrightarrow> u128 x = x"
  by (simp add: u128_def)

lemma fee_ops_bound:
  fixes f :: int and n :: nat
  assumes "0 \<le> f" "f < 2 ^ 63" "n < 2 ^ 32"
  shows "0 \<le> f * int n" "f * int n < 2 ^ 95"
proof -
  show "0 \<le> f * int n" using assms by simp
  have "f * int n \<le> f * (2 ^ 32)" using assms by (intro mult_left_mono) auto
  also have "\<dots> < 2 ^ 63 * 2 ^ 32" using assms by simp
  finally show "f * int n < 2 ^ 95" by simp
qed

lemma bigMultiply_exact:
  fixes f :: int and n :: nat
  assumes "0 \<le> f" "f < 2 ^ 63" "n < 2 ^ 32"
  shows "bigMultiply f (int n) = f * int n"
proof -
  have a: "u64 f = f" using assms by (intro u64_id) auto
  have "int n < 2 ^ 32" using assms(3) by (metis of_nat_less_iff of_nat_numeral of_nat_power)
  then have b: "u64 (int n) = int n" by (intro u64_id) auto
  have "f * int n < 2 ^ 128" using fee_ops_bound(2)[OF assms] by simp
  then show ?thesis
    unfolding bigMultiply_def a b using fee_ops_bound(1)[OF assms] by (intro u128_id) auto
qed

lemma fee_multiple_bound:
  fixes f :: int and n :: nat
  assumes "0 \<le> f" "f < 2 ^ 63" "n < 2 ^ 32"
  shows "0 \<le> FEE_MULTIPLIER * bigMultiply f (int n)"
    and "FEE_MULTIPLIER * bigMultiply f (int n) < 2 ^ 128"
proof -
  have "f * int n < 2 ^ 95" by (rule fee_ops_bound(2)[OF assms])
  then show "FEE_MULTIPLIER * bigMultiply f (int n) < 2 ^ 128"
    unfolding bigMultiply_exact [OF assms] FEE_MULTIPLIER_def by simp
  show "0 \<le> FEE_MULTIPLIER * bigMultiply f (int n)"
    unfolding bigMultiply_exact [OF assms] FEE_MULTIPLIER_def
    using fee_ops_bound(1)[OF assms] by simp
qed

lemma canReplaceByFee_exact:
  assumes "0 \<le> getFeeBid tx" "getFeeBid tx < 2 ^ 63" "getNumOperations tx < 2 ^ 32"
    and "0 \<le> getFeeBid oldTx" "getFeeBid oldTx < 2 ^ 63" "getNumOperations oldTx < 2 ^ 32"
  shows "canReplaceByFee tx oldTx \<longleftrightarrow>
    getFeeBid tx * int (max 1 (getNumOperations oldTx))
      \<ge> 10 * getFeeBid oldTx * int (max 1 (getNumOperations tx))"
proof -
  have m1: "max 1 (getNumOperations oldTx) < 2 ^ 32" using assms(6) by simp
  have m2: "max 1 (getNumOperations tx) < 2 ^ 32" using assms(3) by simp
  have v1: "bigMultiply (getFeeBid tx) (int (max 1 (getNumOperations oldTx)))
      = getFeeBid tx * int (max 1 (getNumOperations oldTx))"
    by (rule bigMultiply_exact[OF assms(1,2) m1])
  have v2: "bigMultiply (getFeeBid oldTx) (int (max 1 (getNumOperations tx)))
      = getFeeBid oldTx * int (max 1 (getNumOperations tx))"
    by (rule bigMultiply_exact[OF assms(4,5) m2])
  have v3: "u128 (FEE_MULTIPLIER * bigMultiply (getFeeBid oldTx) (int (max 1 (getNumOperations tx))))
     = FEE_MULTIPLIER * bigMultiply (getFeeBid oldTx) (int (max 1 (getNumOperations tx)))"
    by (rule u128_id [OF fee_multiple_bound [OF assms(4,5) m2]])
  show ?thesis
    unfolding canReplaceByFee_def Let_def v3 unfolding v1 v2 FEE_MULTIPLIER_def
    by (simp add: mult.assoc)
qed

subsection \<open>Lookup by sequence number in a contiguous queue\<close>

lemma contiguous_nth:
  "contiguous txs \<Longrightarrow> j < length txs \<Longrightarrow> getSeqNum (txs ! j) = getSeqNum (hd txs) + int j"
proof (induction txs arbitrary: j rule: contiguous.induct)
  case 1
  then show ?case by simp
next
  case (2 t)
  then show ?case by simp
next
  case (3 t u ts)
  show ?case
  proof (cases j)
    case 0
    then show ?thesis by simp
  next
    case (Suc j')
    with 3 have "getSeqNum ((u # ts) ! j') = getSeqNum u + int j'" by simp
    with 3 Suc show ?thesis by simp
  qed
qed

lemma contiguous_last:
  assumes c: "contiguous txs" and ne: "txs \<noteq> []"
  shows "getSeqNum (last txs) = getSeqNum (hd txs) + int (length txs) - 1"
proof -
  from ne have "0 < length txs" by simp
  then have "int (length txs - 1) = int (length txs) - 1" by linarith
  with contiguous_nth [OF c, of "length txs - 1"] ne show ?thesis
    by (simp add: last_conv_nth)
qed

lemma int64_succ_below: "x < INT64_MAX \<Longrightarrow> int64_succ x = x + 1"
  by (simp add: int64_succ_def)

lemma int64_succ_less: "x + 1 < y \<Longrightarrow> int64_succ x < y"
  by (simp add: int64_succ_def INT64_MAX_def INT64_MIN_def)

text \<open>Below \<^verbatim>\<open>INT64_MAX\<close> the sum of line 68 is exact.\<close>

lemma findBySeq_contiguous:
  assumes "contiguous txs" "txs \<noteq> []" "getSeqNum (last txs) < INT64_MAX"
  shows "findBySeq seq txs iter =
     (if seq < getSeqNum (hd txs) \<or> seq > getSeqNum (hd txs) + int (length txs)
      then Some (False, iter) else Some (True, nat (seq - getSeqNum (hd txs))))"
proof -
  have l: "int64_succ (getSeqNum (last txs)) = getSeqNum (hd txs) + int (length txs)"
    using contiguous_last [OF assms(1,2)] int64_succ_below [OF assms(3)] by simp
  show ?thesis
  proof (cases "seq < getSeqNum (hd txs) \<or> seq > getSeqNum (hd txs) + int (length txs)")
    case True
    then show ?thesis using assms(2) l by (simp add: findBySeq_def Let_def)
  next
    case False
    then have r: "getSeqNum (hd txs) \<le> seq" "seq - getSeqNum (hd txs) \<le> int (length txs)"
      by auto
    have "nat (seq - getSeqNum (hd txs)) = length txs \<or>
          getSeqNum (txs ! nat (seq - getSeqNum (hd txs))) = seq"
    proof (cases "nat (seq - getSeqNum (hd txs)) = length txs")
      case True
      then show ?thesis by simp
    next
      case False
      with r have "nat (seq - getSeqNum (hd txs)) < length txs" by linarith
      from contiguous_nth [OF assms(1) this] r show ?thesis by simp
    qed
    with False r assms(2) l show ?thesis by (simp add: findBySeq_def Let_def)
  qed
qed

lemma findBySeq_slot:
  assumes "contiguous txs" "i < length txs" "getSeqNum (txs ! i) = seq"
    and "getSeqNum (last txs) < INT64_MAX"
  shows "findBySeq seq txs iter = Some (True, i)"
proof -
  have ne: "txs \<noteq> []" using assms(2) by auto
  have s: "seq = getSeqNum (hd txs) + int i"
    using contiguous_nth [OF assms(1,2)] assms(3) by simp
  show ?thesis unfolding findBySeq_contiguous [OF assms(1) ne assms(4)] using s assms(2) by simp
qed

subsection \<open>Admission: the phases before the capacity check\<close>

lemma canAddLocate_feebump_slot:
  assumes "getEnvelopeType tx = ENVELOPE_TYPE_TX_FEE_BUMP"
    and "map_of (mAccountStates q) (getSourceID tx) = Some st"
    and "contiguous (mTransactions st)" "i < length (mTransactions st)"
    and "getSeqNum (mTransactions st ! i) = getSeqNum tx"
    and "getSeqNum (last (mTransactions st)) < INT64_MAX"
  shows "canAddLocate tx q =
     (let oldTx = mTransactions st ! i
      in if isDuplicateTx oldTx tx then Some (Rejected ADD_STATUS_DUPLICATE None)
         else if \<not> canReplaceByFee tx oldTx
         then Some (Rejected ADD_STATUS_ERROR (Some txINSUFFICIENT_FEE))
         else Some (Proceed
                (if getFeeSourceID oldTx = getFeeSourceID tx
                 then getFeeBid tx - getFeeBid oldTx else getFeeBid tx)
                (int (getNumOperations tx) - int (getNumOperations oldTx))
                (getSeqNum tx - 1) i))"
proof -
  have ne: "mTransactions st \<noteq> []" using assms(4) by auto
  show ?thesis
    using assms(1,2,4) ne findBySeq_slot [OF assms(3,4,5,6)]
    by (simp add: canAddLocate_def Let_def)
qed

lemma tryAdd_rejected:
  assumes "\<not> isBanned q (getFullHash tx)" "canAddLocate tx q = Some (Rejected res code)"
    "res \<noteq> ADD_STATUS_PENDING"
  shows "tryAdd lv tx q = Some (res, code, q)"
  using assms by (simp add: tryAdd_def canAdd_def)

lemma findBySeq_outside:
  assumes "txs \<noteq> []"
    and "seq < getSeqNum (hd txs) \<or> seq > getSeqNum (last txs) + 1"
  shows "findBySeq seq txs iter = Some (False, iter)"
proof -
  from assms(2) have "seq < getSeqNum (hd txs) \<or> seq > int64_succ (getSeqNum (last txs))"
    using int64_succ_less [of "getSeqNum (last txs)" seq] by blast
  with assms(1) show ?thesis by (simp add: findBySeq_def Let_def)
qed

lemma canAddLocate_feebump_bad_seq:
  assumes "getEnvelopeType tx = ENVELOPE_TYPE_TX_FEE_BUMP"
    and "map_of (mAccountStates q) (getSourceID tx) = Some st" "mTransactions st \<noteq> []"
    and "getSeqNum tx < getSeqNum (hd (mTransactions st))
         \<or> getSeqNum tx > getSeqNum (last (mTransactions st)) + 1"
  shows "canAddLocate tx q = Some (Rejected ADD_STATUS_ERROR (Some txBAD_SEQ))"
  using assms(1,2,3) findBySeq_outside [OF assms(3,4)]
  by (simp add: canAddLocate_def Let_def)

lemma canAddLocate_netFee:
  assumes "canAddLocate tx q = Some (Proceed netFee netOps seqNum oldTxIter)"
  shows "(case map_of (mAccountStates q) (getSourceID tx) of
            None \<Rightarrow> netFee = getFeeBid tx \<and> netOps = int (getNumOperations tx)
          | Some st \<Rightarrow>
              oldTxIter \<le> length (mTransactions st) \<and>
              (if oldTxIter < length (mTransactions st)
               then getEnvelopeType tx = ENVELOPE_TYPE_TX_FEE_BUMP
                 \<and> getSeqNum (mTransactions st ! oldTxIter) = getSeqNum tx
                 \<and> netFee = (if getFeeSourceID (mTransactions st ! oldTxIter) = getFeeSourceID tx
                             then getFeeBid tx - getFeeBid (mTransactions st ! oldTxIter)
                             else getFeeBid tx)
                 \<and> netOps = int (getNumOperations tx)
                             - int (getNumOperations (mTransactions st ! oldTxIter))
               else netFee = getFeeBid tx \<and> netOps = int (getNumOperations tx)))"
  using assms
  by (auto simp add: canAddLocate_def findBySeq_def Let_def
      split: option.splits if_splits prod.splits)

lemma canAdd_proceed:
  assumes "\<not> isBanned q (getFullHash tx)"
    and "canAddLocate tx q = Some (Proceed netFee netOps seqNum oldTxIter)"
  shows "canAdd lv tx q =
     (if u64 (netOps + mQueueSizeOps_q q) > maxQueueSizeOps lv q then
        (case ban [tx] q of
           None \<Rightarrow> None
         | Some q1 \<Rightarrow> Some (ADD_STATUS_TRY_AGAIN_LATER, None, q1, oldTxIter))
      else if \<not> fst (checkValid lv tx seqNum)
      then Some (ADD_STATUS_ERROR, Some (snd (checkValid lv tx seqNum)), q, oldTxIter)
      else if getAvailableBalance lv (getFeeSourceID tx) - netFee
                < (case map_of (mAccountStates q) (getFeeSourceID tx) of
                     None \<Rightarrow> 0 | Some feeState \<Rightarrow> mTotalFees feeState)
      then Some (ADD_STATUS_ERROR, Some txINSUFFICIENT_BALANCE, q, oldTxIter)
      else Some (ADD_STATUS_PENDING, Some (snd (checkValid lv tx seqNum)), q, oldTxIter))"
  using assms by (simp add: canAdd_def Let_def)

lemma tryAdd_not_pending:
  assumes "canAdd lv tx q = Some (res, code, q1, oldTxIter)" "res \<noteq> ADD_STATUS_PENDING"
  shows "tryAdd lv tx q = Some (res, code, q1)"
  using assms by (simp add: tryAdd_def)


lemma tryAdd_append:
  assumes "canAdd lv tx q = Some (ADD_STATUS_PENDING, code, q, length (mTransactions st))"
    and "map_of (mAccountStates q) (getSourceID tx) = Some st"
  shows "\<exists>q' st'. tryAdd lv tx q = Some (ADD_STATUS_PENDING, code, q')
      \<and> map_of (mAccountStates q') (getSourceID tx) = Some st'
      \<and> mTransactions st' = mTransactions st @ [tx]
      \<and> mAge st' = mAge st
      \<and> mQueueSizeOps st' = u64 (mQueueSizeOps st + int (getNumOperations tx))
      \<and> mTotalFees st' = (if getFeeSourceID tx = getSourceID tx
                           then mTotalFees st + getFeeBid tx else mTotalFees st)
      \<and> mBannedTransactions q' = mBannedTransactions q
      \<and> mQueueSizeOps_q q' = u64 (mQueueSizeOps_q q + int (getNumOperations tx))"
  using assms
  by (simp add: tryAdd_def Let_def tryAddAppend_def tryAddCount_def update_conv')

lemma findBySeq_iter_le:
  assumes "findBySeq seq txs (length txs) = Some (found, iter)"
  shows "iter \<le> length txs"
  using assms by (auto simp add: findBySeq_def Let_def split: if_splits)

lemma locate_findTx:
  assumes "canAddLocate tx q = Some (Proceed netFee netOps seqNum oldTxIter)"
    and "map_of (mAccountStates q) (getSourceID tx) = Some st" "mTransactions st \<noteq> []"
    and "\<forall>t \<in> set (mTransactions st).
           getFullHash t = getFullHash tx \<longrightarrow> getEnvelopeType t = getEnvelopeType tx"
  shows "findTx tx (mTransactions st) (length (mTransactions st))
           = Some (length (mTransactions st))"
proof -
  let ?txs = "mTransactions st"
  from assms(1,2,3) obtain found iter where
    f: "findBySeq (getSeqNum tx) ?txs (length ?txs) = Some (found, iter)"
    by (auto simp add: canAddLocate_def Let_def split: option.splits if_splits)
  have "getFullHash (?txs ! iter) \<noteq> getFullHash tx" if ne: "iter \<noteq> length ?txs"
  proof
    assume h: "getFullHash (?txs ! iter) = getFullHash tx"
    from findBySeq_iter_le [OF f] ne have "iter < length ?txs" by simp
    then have "?txs ! iter \<in> set ?txs" by simp
    with assms(4) h have ty: "getEnvelopeType (?txs ! iter) = getEnvelopeType tx" by blast
    have fo: found using f ne by (auto simp add: findBySeq_def Let_def split: if_splits)
    have "isDuplicateTx (?txs ! iter) tx" using h ty by (simp add: isDuplicateTx_def)
    with assms(1,2,3) f fo ne show False
      by (auto simp add: canAddLocate_def Let_def split: if_splits)
  qed
  with f show ?thesis by (auto simp add: findTx_def)
qed

lemma transactionsByAccount_single:
  "transactionsByAccount [tx] = [(getSourceID tx, [tx])]"
  by (simp add: transactionsByAccount_def)

lemma ban_single_unqueued:
  assumes "mBannedTransactions q = front # rest"
    and "\<And>st. map_of (mAccountStates q) (getSourceID tx) = Some st \<Longrightarrow>
           mTransactions st \<noteq> [] \<Longrightarrow>
           findTx tx (mTransactions st) (length (mTransactions st))
             = Some (length (mTransactions st))"
  shows "ban [tx] q
     = Some (q\<lparr>mBannedTransactions := insert (getFullHash tx) front # rest\<rparr>)"
proof (cases "map_of (mAccountStates q) (getSourceID tx)")
  case None
  then show ?thesis using assms(1)
    by (simp add: ban_def bannedFront_emplace_def transactionsByAccount_single banAccount_def)
next
  case (Some st)
  show ?thesis
  proof (cases "mTransactions st = []")
    case True
    then show ?thesis using assms(1) Some
      by (simp add: ban_def bannedFront_emplace_def transactionsByAccount_single
          banAccount_def)
  next
    case False
    from assms(2) [OF Some False] show ?thesis using assms(1) Some False
      by (simp add: ban_def bannedFront_emplace_def transactionsByAccount_single
          banAccount_def banSearch_def dropTransactions_def update_triv Let_def)
  qed
qed

lemma maxQueueSizeOps_exact:
  assumes "0 \<le> getLastMaxTxSetSizeOps lv" "0 \<le> mPoolLedgerMultiplier q"
    and "getLastMaxTxSetSizeOps lv * mPoolLedgerMultiplier q < 2 ^ 64"
  shows "maxQueueSizeOps lv q = getLastMaxTxSetSizeOps lv * mPoolLedgerMultiplier q"
proof -
  have "u64 (u64 (getLastMaxTxSetSizeOps lv) * u64 (mPoolLedgerMultiplier q))
      = u64 (getLastMaxTxSetSizeOps lv * mPoolLedgerMultiplier q)"
    by (simp add: u64_def mod_mult_eq)
  also have "\<dots> = getLastMaxTxSetSizeOps lv * mPoolLedgerMultiplier q"
    using assms by (intro u64_id) auto
  finally show ?thesis by (simp add: maxQueueSizeOps_def)
qed

subsection \<open>Releasing a fee: what changes\<close>

lemma release_Some:
  assumes "releaseFeeMaybeEraseAccountState t q = Some q'"
  shows "\<exists>st. map_of (mAccountStates q) (getFeeSourceID t) = Some st
     \<and> getFeeBid t \<le> mTotalFees st
     \<and> q' = q\<lparr>mAccountStates :=
                (if mTransactions st = [] \<and> mTotalFees st = getFeeBid t
                 then AList.delete (getFeeSourceID t) (mAccountStates q)
                 else AList.update (getFeeSourceID t)
                        (st\<lparr>mTotalFees := mTotalFees st - getFeeBid t\<rparr>) (mAccountStates q))\<rparr>"
  using assms
  by (auto simp add: releaseFeeMaybeEraseAccountState_def Let_def
      split: option.splits if_splits)

lemma release_frame:
  assumes "releaseFeeMaybeEraseAccountState t q = Some q'"
  shows "mBannedTransactions q' = mBannedTransactions q"
    and "mQueueSizeOps_q q' = mQueueSizeOps_q q"
    and "mPendingDepth q' = mPendingDepth q"
    and "mPoolLedgerMultiplier q' = mPoolLedgerMultiplier q"
  using release_Some [OF assms] by auto

lemma release_other:
  assumes "releaseFeeMaybeEraseAccountState t q = Some q'" "a \<noteq> getFeeSourceID t"
  shows "map_of (mAccountStates q') a = map_of (mAccountStates q) a"
  using release_Some [OF assms(1)] assms(2) by (auto simp add: update_conv' delete_conv')

lemma release_nonempty:
  assumes "releaseFeeMaybeEraseAccountState t q = Some q'"
    and "map_of (mAccountStates q) a = Some st" "mTransactions st \<noteq> []"
  shows "map_of (mAccountStates q') a
     = Some (if a = getFeeSourceID t then st\<lparr>mTotalFees := mTotalFees st - getFeeBid t\<rparr>
             else st)"
  using release_Some [OF assms(1)] assms(2,3) by (auto simp add: update_conv' delete_conv')

subsection \<open>Admission: the queue of the source account after a commit\<close>

lemma canAddLocate_rejected:
  assumes "canAddLocate tx q = Some (Rejected res code)"
  shows "res \<noteq> ADD_STATUS_PENDING"
  using assms
  by (auto simp add: canAddLocate_def Let_def split: option.splits if_splits prod.splits)

lemma tryAdd_pending_queue:
  assumes "tryAdd lv tx q = Some (ADD_STATUS_PENDING, code, q')"
  shows "\<exists>netFee netOps seqNum oldTxIter st'.
      \<not> isBanned q (getFullHash tx)
      \<and> canAddLocate tx q = Some (Proceed netFee netOps seqNum oldTxIter)
      \<and> fst (checkValid lv tx seqNum)
      \<and> mBannedTransactions q' = mBannedTransactions q
      \<and> map_of (mAccountStates q') (getSourceID tx) = Some st'
      \<and> mTransactions st' =
          (case map_of (mAccountStates q) (getSourceID tx) of
             None \<Rightarrow> [tx]
           | Some st \<Rightarrow> if oldTxIter < length (mTransactions st)
                        then (mTransactions st)[oldTxIter := tx]
                        else mTransactions st @ [tx])"
proof -
  from assms obtain c q1 it where c: "canAdd lv tx q = Some (ADD_STATUS_PENDING, c, q1, it)"
    by (auto simp add: tryAdd_def split: option.splits if_splits)
  then have nb: "\<not> isBanned q (getFullHash tx)"
    by (auto simp add: canAdd_def split: if_splits)
  from c nb obtain netFee netOps seqNum where
    l: "canAddLocate tx q = Some (Proceed netFee netOps seqNum it)"
    using canAddLocate_rejected [of tx q ADD_STATUS_PENDING]
    by (auto simp add: canAdd_def Let_def split: option.splits Located.splits if_splits)
  from c canAdd_proceed [OF nb l, of lv] have v: "fst (checkValid lv tx seqNum)" and q1: "q1 = q"
    by (auto split: if_splits option.splits)
  note nf = canAddLocate_netFee [OF l]
  show ?thesis
  proof (cases "map_of (mAccountStates q) (getSourceID tx)")
    case None
    with assms c q1 have "mBannedTransactions q' = mBannedTransactions q
       \<and> (\<exists>st'. map_of (mAccountStates q') (getSourceID tx) = Some st'
            \<and> mTransactions st' = [tx])"
      by (auto simp add: tryAdd_def Let_def tryAddAppend_def tryAddCount_def update_conv'
          AccountState_new_def split: if_splits)
    with nb l v None show ?thesis by auto
  next
    case (Some st)
    with nf have le: "it \<le> length (mTransactions st)" by simp
    show ?thesis
    proof (cases "it < length (mTransactions st)")
      case True
      then have ne: "mTransactions st \<noteq> []" by auto
      from assms c q1 Some True obtain q2 q3 where
        r: "releaseFeeMaybeEraseAccountState (mTransactions st ! it) q = Some q2"
        and q': "tryAddCount (getSourceID tx) tx
           (q2\<lparr>mAccountStates :=
                  AList.update (getSourceID tx)
                    ((the (map_of (mAccountStates q2) (getSourceID tx)))
                       \<lparr>mQueueSizeOps :=
                          u64 (mQueueSizeOps (the (map_of (mAccountStates q2) (getSourceID tx)))
                               - int (getNumOperations (mTransactions st ! it))),
                        mTransactions :=
                          (mTransactions (the (map_of (mAccountStates q2) (getSourceID tx))))
                            [it := tx]\<rparr>)
                    (mAccountStates q2),
                mQueueSizeOps_q :=
                  u64 (mQueueSizeOps_q q2 - int (getNumOperations (mTransactions st ! it)))\<rparr>)
           = Some q'"
        by (auto simp add: tryAdd_def Let_def tryAddReplace_def split: option.splits if_splits)
      from release_nonempty [OF r Some ne] obtain st2 where
        s2: "map_of (mAccountStates q2) (getSourceID tx) = Some st2"
        and t2: "mTransactions st2 = mTransactions st" by auto
      from q' s2 t2 release_frame(1) [OF r] have
        "mBannedTransactions q' = mBannedTransactions q
         \<and> (\<exists>st'. map_of (mAccountStates q') (getSourceID tx) = Some st'
            \<and> mTransactions st' = (mTransactions st)[it := tx])"
        by (auto simp add: tryAddCount_def Let_def update_conv')
      with nb l v Some True show ?thesis by auto
    next
      case False
      with le have e: "it = length (mTransactions st)" by simp
      from c q1 e have "canAdd lv tx q = Some (ADD_STATUS_PENDING, c, q, length (mTransactions st))"
        by simp
      from tryAdd_append [OF this Some] assms nb l v Some False show ?thesis by auto
    qed
  qed
qed

lemma contiguous_step:
  "contiguous txs \<Longrightarrow> Suc j < length txs \<Longrightarrow>
     getSeqNum (txs ! Suc j) = getSeqNum (txs ! j) + 1"
  using contiguous_nth [of txs "Suc j"] contiguous_nth [of txs j] by simp

lemma contiguous_by_steps:
  "(\<And>j. Suc j < length txs \<Longrightarrow> getSeqNum (txs ! Suc j) = getSeqNum (txs ! j) + 1)
     \<Longrightarrow> contiguous txs"
proof (induction txs rule: contiguous.induct)
  case 1
  then show ?case by simp
next
  case (2 t)
  then show ?case by simp
next
  case (3 t u ts)
  from 3(2) [of 0] have a: "getSeqNum u = getSeqNum t + 1" by simp
  have "getSeqNum ((u # ts) ! Suc j) = getSeqNum ((u # ts) ! j) + 1"
    if "Suc j < length (u # ts)" for j
    using 3(2) [of "Suc j"] that by simp
  with 3(1) a show ?case by simp
qed

lemma contiguous_update:
  assumes "contiguous txs" "i < length txs" "getSeqNum (txs ! i) = getSeqNum t"
  shows "contiguous (txs[i := t])"
proof (rule contiguous_by_steps)
  fix j
  assume j: "Suc j < length (txs[i := t])"
  have same: "getSeqNum (txs[i := t] ! k) = getSeqNum (txs ! k)" if "k < length txs" for k
    using that assms(3) by (cases "k = i") simp_all
  from j have "Suc j < length txs" "j < length txs" by simp_all
  with same contiguous_step [OF assms(1), of j]
  show "getSeqNum (txs[i := t] ! Suc j) = getSeqNum (txs[i := t] ! j) + 1" by simp
qed

lemma contiguous_append:
  assumes "contiguous txs" "txs \<noteq> []" "getSeqNum t = getSeqNum (last txs) + 1"
  shows "contiguous (txs @ [t])"
  using assms
proof (induction txs rule: contiguous.induct)
  case 1
  then show ?case by simp
next
  case (2 u)
  then show ?case by simp
next
  case (3 a b ts)
  then show ?case by simp
qed

lemma canAddLocate_append_seq:
  assumes "canAddLocate tx q = Some (Proceed netFee netOps seqNum oldTxIter)"
    and "map_of (mAccountStates q) (getSourceID tx) = Some st" "mTransactions st \<noteq> []"
    and "contiguous (mTransactions st)" "\<not> oldTxIter < length (mTransactions st)"
  shows "if getEnvelopeType tx = ENVELOPE_TYPE_TX_FEE_BUMP
         then getSeqNum tx = getSeqNum (last (mTransactions st)) + 1
         else seqNum = getSeqNum (last (mTransactions st))"
proof (cases "getEnvelopeType tx = ENVELOPE_TYPE_TX_FEE_BUMP")
  case False
  with assms(1,2,3) show ?thesis
    by (auto simp add: canAddLocate_def Let_def split: option.splits if_splits)
next
  case True
  let ?txs = "mTransactions st"
  from True assms(1,2,3) have f: "findBySeq (getSeqNum tx) ?txs (length ?txs)
      = Some (True, oldTxIter)"
    by (auto simp add: canAddLocate_def Let_def split: option.splits if_splits)
  from findBySeq_iter_le [OF f] assms(5) have e: "oldTxIter = length ?txs" by simp
  from f e assms(3)
  have "getSeqNum (hd ?txs) \<le> getSeqNum tx"
    "nat (getSeqNum tx - getSeqNum (hd ?txs)) = length ?txs"
    by (auto simp add: findBySeq_def Let_def split: if_splits)
  then have "getSeqNum tx = getSeqNum (hd ?txs) + int (length ?txs)" by linarith
  with contiguous_last [OF assms(4,3)] True show ?thesis by simp
qed

lemma isDuplicateTx_self: "isDuplicateTx tx tx"
  by (simp add: isDuplicateTx_def)

lemma canAddLocate_queued:
  assumes "map_of (mAccountStates q) (getSourceID tx) = Some st"
    and "contiguous (mTransactions st)" "i < length (mTransactions st)"
    and "mTransactions st ! i = tx"
    and "getSeqNum (last (mTransactions st)) < INT64_MAX"
  shows "canAddLocate tx q = Some (Rejected ADD_STATUS_DUPLICATE None)"
proof -
  have ne: "mTransactions st \<noteq> []" using assms(3) by auto
  have "findBySeq (getSeqNum tx) (mTransactions st) (length (mTransactions st)) = Some (True, i)"
    using findBySeq_slot [OF assms(2,3) _ assms(5)] assms(4) by simp
  with assms(1,3,4) ne isDuplicateTx_self [of tx] show ?thesis
    by (simp add: canAddLocate_def Let_def)
qed

subsection \<open>Releasing the fees of a list of transactions\<close>

lemma feesOn_simps [simp]:
  "feesOn b [] = 0"
  "feesOn b (t # ts) = (if getFeeSourceID t = b then getFeeBid t + feesOn b ts else feesOn b ts)"
  by (simp_all add: feesOn_def)

lemma feesOn_none: "\<forall>t \<in> set ts. getFeeSourceID t \<noteq> b \<Longrightarrow> feesOn b ts = 0"
  by (induction ts) auto

lemma release_map:
  assumes "releaseFeeMaybeEraseAccountState t q = Some q'"
  shows "map_of (mAccountStates q') b =
     (if b = getFeeSourceID t
      then (case map_of (mAccountStates q) b of
              None \<Rightarrow> None
            | Some sb \<Rightarrow> if mTransactions sb = [] \<and> mTotalFees sb = getFeeBid t then None
                         else Some (sb\<lparr>mTotalFees := mTotalFees sb - getFeeBid t\<rparr>))
      else map_of (mAccountStates q) b)"
  using release_Some [OF assms] by (auto simp add: update_conv' delete_conv')

lemma release_present:
  assumes "releaseFeeMaybeEraseAccountState t q = Some q'"
  shows "map_of (mAccountStates q) (getFeeSourceID t) \<noteq> None"
  using release_Some [OF assms] by auto

lemma bannedFront_emplace_Some:
  assumes "bannedFront_emplace h q = Some q'"
  shows "\<exists>F R. mBannedTransactions q = F # R
     \<and> q' = q\<lparr>mBannedTransactions := insert h F # R\<rparr>"
  using assms by (auto simp add: bannedFront_emplace_def split: list.splits)

lemma shiftEvict_Some:
  assumes "shiftEvict t q = Some q'"
  shows "\<exists>q1 F R. releaseFeeMaybeEraseAccountState t q = Some q1
     \<and> mBannedTransactions q = F # R
     \<and> q' = q1\<lparr>mBannedTransactions := insert (getFullHash t) F # R\<rparr>"
proof -
  from assms obtain q1 where r: "releaseFeeMaybeEraseAccountState t q = Some q1"
    and e: "bannedFront_emplace (getFullHash t) q1 = Some q'"
    by (auto simp add: shiftEvict_def split: option.splits)
  from bannedFront_emplace_Some [OF e] release_frame(1) [OF r] r show ?thesis by auto
qed

lemma shiftEvict_map:
  assumes "shiftEvict t q = Some q'"
  shows "map_of (mAccountStates q') b =
     (if b = getFeeSourceID t
      then (case map_of (mAccountStates q) b of
              None \<Rightarrow> None
            | Some sb \<Rightarrow> if mTransactions sb = [] \<and> mTotalFees sb = getFeeBid t then None
                         else Some (sb\<lparr>mTotalFees := mTotalFees sb - getFeeBid t\<rparr>))
      else map_of (mAccountStates q) b)"
proof -
  from shiftEvict_Some [OF assms] obtain q1 F R where
    r: "releaseFeeMaybeEraseAccountState t q = Some q1"
    and q': "q' = q1\<lparr>mBannedTransactions := insert (getFullHash t) F # R\<rparr>" by blast
  from release_map [OF r, of b] q' show ?thesis by simp
qed

lemma shiftEvict_absent:
  assumes "forEach shiftEvict ts q = Some q'" "map_of (mAccountStates q) b = None"
  shows "(\<forall>t \<in> set ts. getFeeSourceID t \<noteq> b) \<and> map_of (mAccountStates q') b = None"
  using assms
proof (induction ts arbitrary: q)
  case Nil
  then show ?case by simp
next
  case (Cons t ts)
  from Cons.prems(1) obtain q1 where s: "shiftEvict t q = Some q1"
    and r: "forEach shiftEvict ts q1 = Some q'"
    by (auto split: option.splits)
  from shiftEvict_Some [OF s] obtain q0 where "releaseFeeMaybeEraseAccountState t q = Some q0"
    by blast
  from release_present [OF this] Cons.prems(2) have ne: "getFeeSourceID t \<noteq> b" by auto
  with shiftEvict_map [OF s, of b] Cons.prems(2) have "map_of (mAccountStates q1) b = None"
    by simp
  from Cons.IH [OF r this] ne show ?case by simp
qed

lemma forEach_shiftEvict_map:
  assumes "forEach shiftEvict ts q = Some q'"
  shows "map_of (mAccountStates q') b =
     (case map_of (mAccountStates q) b of None \<Rightarrow> None | Some sb \<Rightarrow> released b ts sb)"
  using assms
proof (induction ts arbitrary: q)
  case Nil
  then show ?case by (auto simp add: released_def split: option.splits)
next
  case (Cons t ts)
  from Cons.prems obtain q1 where s: "shiftEvict t q = Some q1"
    and r: "forEach shiftEvict ts q1 = Some q'"
    by (auto split: option.splits)
  note m1 = shiftEvict_map [OF s, of b]
  note ih = Cons.IH [OF r]
  show ?case
  proof (cases "map_of (mAccountStates q) b")
    case None
    with shiftEvict_absent [OF Cons.prems None] show ?thesis by simp
  next
    case (Some sb)
    show ?thesis
    proof (cases "b = getFeeSourceID t")
      case False
      with m1 Some ih show ?thesis by (simp add: released_def)
    next
      case True
      show ?thesis
      proof (cases "mTransactions sb = [] \<and> mTotalFees sb = getFeeBid t")
        case gone: True
        with m1 Some True have n1: "map_of (mAccountStates q1) b = None" by simp
        from shiftEvict_absent [OF r n1] have "feesOn b ts = 0" "map_of (mAccountStates q') b = None"
          using feesOn_none by auto
        with Some True gone show ?thesis by (simp add: released_def)
      next
        case kept: False
        with m1 Some True have
          s1: "map_of (mAccountStates q1) b = Some (sb\<lparr>mTotalFees := mTotalFees sb - getFeeBid t\<rparr>)"
          by auto
        have "released b ts (sb\<lparr>mTotalFees := mTotalFees sb - getFeeBid t\<rparr>)
            = released b (t # ts) sb"
        proof (cases "\<exists>u \<in> set ts. getFeeSourceID u = b")
          case True
          then show ?thesis using \<open>b = getFeeSourceID t\<close>
            by (auto simp add: released_def algebra_simps)
        next
          case False
          then have "feesOn b ts = 0" using feesOn_none by auto
          with False kept True show ?thesis by (auto simp add: released_def)
        qed
        with ih s1 Some show ?thesis by simp
      qed
    qed
  qed
qed

lemma forEach_shiftEvict_frame:
  assumes "forEach shiftEvict ts q = Some q'" "mBannedTransactions q = F # R"
  shows "mBannedTransactions q' = (getFullHash ` set ts \<union> F) # R"
    and "mQueueSizeOps_q q' = mQueueSizeOps_q q"
    and "mPendingDepth q' = mPendingDepth q"
    and "mPoolLedgerMultiplier q' = mPoolLedgerMultiplier q"
  using assms
proof (induction ts arbitrary: q F)
  case Nil
  {
    case 1 then show ?case by simp
  next
    case 2 then show ?case by simp
  next
    case 3 then show ?case by simp
  next
    case 4 then show ?case by simp
  }
next
  case (Cons t ts)
  {
    case 1
    from 1(1) obtain q1 where s: "shiftEvict t q = Some q1"
      and r: "forEach shiftEvict ts q1 = Some q'" by (auto split: option.splits)
    from shiftEvict_Some [OF s] 1(2) have "mBannedTransactions q1 = insert (getFullHash t) F # R"
      by auto
    from Cons.IH(1) [OF r this] show ?case by auto
  next
    case 2
    from 2(1) obtain q1 where s: "shiftEvict t q = Some q1"
      and r: "forEach shiftEvict ts q1 = Some q'" by (auto split: option.splits)
    from shiftEvict_Some [OF s] 2(2) obtain q0 where
      "mBannedTransactions q1 = insert (getFullHash t) F # R"
      "releaseFeeMaybeEraseAccountState t q = Some q0"
      "mQueueSizeOps_q q1 = mQueueSizeOps_q q0"
      by auto
    with Cons.IH(2) [OF r] release_frame(2) show ?case by metis
  next
    case 3
    from 3(1) obtain q1 where s: "shiftEvict t q = Some q1"
      and r: "forEach shiftEvict ts q1 = Some q'" by (auto split: option.splits)
    from shiftEvict_Some [OF s] 3(2) obtain q0 where
      "mBannedTransactions q1 = insert (getFullHash t) F # R"
      "releaseFeeMaybeEraseAccountState t q = Some q0"
      "mPendingDepth q1 = mPendingDepth q0"
      by auto
    with Cons.IH(3) [OF r] release_frame(3) show ?case by metis
  next
    case 4
    from 4(1) obtain q1 where s: "shiftEvict t q = Some q1"
      and r: "forEach shiftEvict ts q1 = Some q'" by (auto split: option.splits)
    from shiftEvict_Some [OF s] 4(2) obtain q0 where
      "mBannedTransactions q1 = insert (getFullHash t) F # R"
      "releaseFeeMaybeEraseAccountState t q = Some q0"
      "mPoolLedgerMultiplier q1 = mPoolLedgerMultiplier q0"
      by auto
    with Cons.IH(4) [OF r] release_frame(4) show ?case by metis
  }
qed

subsection \<open>One iteration of the loop of \<^verbatim>\<open>shift\<close>\<close>

lemma released_Nil [simp]: "released b [] sb = Some sb"
  by (simp add: released_def)

lemma released_nonempty:
  "mTransactions sb \<noteq> [] \<Longrightarrow>
     released b ts sb = Some (sb\<lparr>mTotalFees := mTotalFees sb - feesOn b ts\<rparr>)"
  by (simp add: released_def)

lemma forEach_invariant:
  assumes "forEach f xs s = Some s'" "P s"
    and "\<And>x s s'. x \<in> set xs \<Longrightarrow> P s \<Longrightarrow> f x s = Some s' \<Longrightarrow> P s'"
  shows "P s'"
  using assms
proof (induction xs arbitrary: s)
  case Nil
  then show ?case by simp
next
  case (Cons x xs)
  from Cons.prems(1) obtain s1 where a: "f x s = Some s1" and b: "forEach f xs s1 = Some s'"
    by (auto split: option.splits)
  have p1: "P s1" using Cons.prems(3) [OF _ Cons.prems(2) a] by simp
  show ?case
  proof (rule Cons.IH [OF b p1])
    fix y t t'
    assume "y \<in> set xs" "P t" "f y t = Some t'"
    then show "P t'" using Cons.prems(3) [of y t t'] by simp
  qed
qed

lemma forEach_append:
  "forEach f (xs @ ys) s = (case forEach f xs s of None \<Rightarrow> None | Some s1 \<Rightarrow> forEach f ys s1)"
  by (induction xs arbitrary: s) (auto split: option.splits)

text \<open>One iteration of the loop of shift, in full.\<close>

lemma shiftAccount_absent:
  "map_of (mAccountStates q) k = None \<Longrightarrow> shiftAccount k q = Some q"
  by (simp add: shiftAccount_def)

lemma shiftAccount_keep:
  assumes "map_of (mAccountStates q) k = Some st"
    and "mPendingDepth q \<noteq> (if mTransactions st \<noteq> [] then mAge st + 1 else mAge st)"
  shows "shiftAccount k q =
     Some (q\<lparr>mAccountStates :=
               AList.update k (if mTransactions st \<noteq> [] then st\<lparr>mAge := mAge st + 1\<rparr> else st)
                 (mAccountStates q)\<rparr>)"
  using assms by (cases "mTransactions st = []") (simp_all add: shiftAccount_def Let_def)

lemma shiftAccount_evict:
  assumes "shiftAccount k q = Some q'"
    and "map_of (mAccountStates q) k = Some st"
    and "mPendingDepth q = (if mTransactions st \<noteq> [] then mAge st + 1 else mAge st)"
    and "mBannedTransactions q = F # R"
  shows "mBannedTransactions q' = (getFullHash ` set (mTransactions st) \<union> F) # R"
    and "mQueueSizeOps_q q' = u64 (mQueueSizeOps_q q - mQueueSizeOps st)"
    and "mPendingDepth q' = mPendingDepth q"
    and "mPoolLedgerMultiplier q' = mPoolLedgerMultiplier q"
    and "map_of (mAccountStates q') k =
           (if mTotalFees st - feesOn k (mTransactions st) = 0 then None
            else Some \<lparr>mTotalFees = mTotalFees st - feesOn k (mTransactions st),
                       mQueueSizeOps = 0, mAge = 0, mTransactions = []\<rparr>)"
    and "b \<noteq> k \<Longrightarrow> map_of (mAccountStates q') b =
           (case map_of (mAccountStates q) b of
              None \<Rightarrow> None | Some sb \<Rightarrow> released b (mTransactions st) sb)"
proof -
  define st1 where "st1 = (if mTransactions st \<noteq> [] then st\<lparr>mAge := mAge st + 1\<rparr> else st)"
  define q1 where "q1 = q\<lparr>mAccountStates := AList.update k st1 (mAccountStates q)\<rparr>"
  have t1: "mTransactions st1 = mTransactions st" by (simp add: st1_def)
  have d: "mPendingDepth q = mAge st1" using assms(3) by (simp add: st1_def)
  have step: "shiftAccount k q =
      (if mPendingDepth q = mAge st1 then
         (case forEach shiftEvict (mTransactions st1) q1 of
            None \<Rightarrow> None
          | Some q2 \<Rightarrow>
              (case map_of (mAccountStates q2) k of
                 None \<Rightarrow> None
               | Some st2 \<Rightarrow>
                   let q3 = q2\<lparr>mQueueSizeOps_q :=
                                 u64 (mQueueSizeOps_q q2 - mQueueSizeOps st2)\<rparr>;
                       st3 = st2\<lparr>mQueueSizeOps := 0, mTransactions := []\<rparr>
                   in if mTotalFees st3 = 0
                      then Some (q3\<lparr>mAccountStates :=
                                      AList.delete k (mAccountStates q3)\<rparr>)
                      else Some (q3\<lparr>mAccountStates :=
                                      AList.update k (st3\<lparr>mAge := 0\<rparr>)
                                        (mAccountStates q3)\<rparr>)))
       else Some q1)"
    unfolding shiftAccount_def st1_def q1_def by (simp only: assms(2) option.case Let_def)
  from assms(1) d obtain q2 st2 where
    f: "forEach shiftEvict (mTransactions st) q1 = Some q2"
    and s2: "map_of (mAccountStates q2) k = Some st2"
    and q': "q' = (if mTotalFees st2 = 0
               then q2\<lparr>mQueueSizeOps_q := u64 (mQueueSizeOps_q q2 - mQueueSizeOps st2),
                       mAccountStates := AList.delete k (mAccountStates q2)\<rparr>
               else q2\<lparr>mQueueSizeOps_q := u64 (mQueueSizeOps_q q2 - mQueueSizeOps st2),
                       mAccountStates :=
                         AList.update k
                           (st2\<lparr>mQueueSizeOps := 0, mTransactions := [], mAge := 0\<rparr>)
                           (mAccountStates q2)\<rparr>)"
    unfolding step t1
    by (auto simp add: Let_def split: option.splits if_splits)
  have r1: "mBannedTransactions q1 = F # R" using assms(4) by (simp add: q1_def)
  note fr = forEach_shiftEvict_frame [OF f r1]
  have m1: "map_of (mAccountStates q1) k = Some st1" by (simp add: q1_def update_conv')
  have st2: "st2 = st1\<lparr>mTotalFees := mTotalFees st1 - feesOn k (mTransactions st)\<rparr>"
  proof (cases "mTransactions st = []")
    case True
    with f have "q2 = q1" by simp
    with s2 m1 True show ?thesis by simp
  next
    case False
    with forEach_shiftEvict_map [OF f, of k] m1 s2 t1 show ?thesis
      by (simp add: released_nonempty)
  qed
  have e: "st2\<lparr>mQueueSizeOps := 0, mTransactions := [], mAge := 0\<rparr>
      = \<lparr>mTotalFees = mTotalFees st - feesOn k (mTransactions st),
         mQueueSizeOps = 0, mAge = 0, mTransactions = []\<rparr>"
    unfolding st2 by (simp add: st1_def)
  have tf: "mTotalFees st2 = mTotalFees st - feesOn k (mTransactions st)"
    unfolding st2 by (simp add: st1_def)
  have o2: "mQueueSizeOps st2 = mQueueSizeOps st" unfolding st2 by (simp add: st1_def)
  show "mBannedTransactions q' = (getFullHash ` set (mTransactions st) \<union> F) # R"
    using fr(1) q' by simp
  show "mQueueSizeOps_q q' = u64 (mQueueSizeOps_q q - mQueueSizeOps st)"
    using fr(2) q' o2 by (simp add: q1_def)
  show "mPendingDepth q' = mPendingDepth q" using fr(3) q' by (simp add: q1_def)
  show "mPoolLedgerMultiplier q' = mPoolLedgerMultiplier q" using fr(4) q' by (simp add: q1_def)
  show "map_of (mAccountStates q') k =
           (if mTotalFees st - feesOn k (mTransactions st) = 0 then None
            else Some \<lparr>mTotalFees = mTotalFees st - feesOn k (mTransactions st),
                       mQueueSizeOps = 0, mAge = 0, mTransactions = []\<rparr>)"
    using q' tf e by (simp add: update_conv' delete_conv')
  show "map_of (mAccountStates q') b =
           (case map_of (mAccountStates q) b of
              None \<Rightarrow> None | Some sb \<Rightarrow> released b (mTransactions st) sb)" if "b \<noteq> k"
  proof -
    have "map_of (mAccountStates q') b = map_of (mAccountStates q2) b"
      using q' that by (simp add: update_conv' delete_conv')
    also have "\<dots> = (case map_of (mAccountStates q1) b of
              None \<Rightarrow> None | Some sb \<Rightarrow> released b (mTransactions st) sb)"
      by (rule forEach_shiftEvict_map [OF f])
    also have "map_of (mAccountStates q1) b = map_of (mAccountStates q) b"
      using that by (simp add: q1_def update_conv')
    finally show ?thesis .
  qed
qed

lemma released_txs:
  "released b ts sb = Some sb' \<Longrightarrow>
     mTransactions sb' = mTransactions sb \<and> mAge sb' = mAge sb
     \<and> mQueueSizeOps sb' = mQueueSizeOps sb
     \<and> mTotalFees sb' = mTotalFees sb - feesOn b ts"
  by (auto simp add: released_def split: if_splits)

lemma released_empty_nonzero:
  assumes "released b ts sb = Some sb'" "mTransactions sb = []" "mTotalFees sb \<noteq> 0"
  shows "mTotalFees sb' \<noteq> 0"
proof (cases "\<exists>t \<in> set ts. getFeeSourceID t = b")
  case True
  with assms show ?thesis by (auto simp add: released_def split: if_splits)
next
  case False
  then have "feesOn b ts = 0" using feesOn_none by auto
  with assms show ?thesis by (auto simp add: released_def split: if_splits)
qed

text \<open>What one iteration does to the ring and to the entries of the other accounts.\<close>

lemma shiftAccount_effect:
  assumes "shiftAccount k q = Some q'" "mBannedTransactions q = F # R"
  shows "\<exists>ts. (ts = [] \<or> (\<exists>st. map_of (mAccountStates q) k = Some st \<and> ts = mTransactions st))
      \<and> mBannedTransactions q' = (getFullHash ` set ts \<union> F) # R
      \<and> mPendingDepth q' = mPendingDepth q
      \<and> (\<forall>b. b \<noteq> k \<longrightarrow> map_of (mAccountStates q') b =
            (case map_of (mAccountStates q) b of
               None \<Rightarrow> None | Some sb \<Rightarrow> released b ts sb))
      \<and> (\<forall>st'. map_of (mAccountStates q') k = Some st' \<longrightarrow>
            (\<exists>st. map_of (mAccountStates q) k = Some st
               \<and> set (mTransactions st') \<subseteq> set (mTransactions st)))"
proof (cases "map_of (mAccountStates q) k")
  case None
  with assms shiftAccount_absent [OF None] have "q' = q" by simp
  with assms(2) None show ?thesis
    by (intro exI [of _ "[]"]) (auto split: option.splits)
next
  case (Some st)
  show ?thesis
  proof (cases "mPendingDepth q = (if mTransactions st \<noteq> [] then mAge st + 1 else mAge st)")
    case False
    from shiftAccount_keep [OF Some False] assms(1) have
      q': "q' = q\<lparr>mAccountStates :=
               AList.update k (if mTransactions st \<noteq> [] then st\<lparr>mAge := mAge st + 1\<rparr> else st)
                 (mAccountStates q)\<rparr>" by simp
    show ?thesis
      using assms(2) Some unfolding q'
      by (intro exI [of _ "[]"]) (auto simp add: update_conv' split: option.splits)
  next
    case True
    note e = shiftAccount_evict [OF assms(1) Some True assms(2)]
    show ?thesis
    proof (intro exI [of _ "mTransactions st"] conjI allI impI)
      show "mTransactions st = [] \<or>
          (\<exists>st'. map_of (mAccountStates q) k = Some st' \<and> mTransactions st = mTransactions st')"
        using Some by simp
      show "mBannedTransactions q' = (getFullHash ` set (mTransactions st) \<union> F) # R"
        by (rule e(1))
      show "mPendingDepth q' = mPendingDepth q" by (rule e(3))
      show "map_of (mAccountStates q') b =
            (case map_of (mAccountStates q) b of
               None \<Rightarrow> None | Some sb \<Rightarrow> released b (mTransactions st) sb)" if "b \<noteq> k" for b
        by (rule e(6) [OF that])
      show "\<exists>st. map_of (mAccountStates q) k = Some st
               \<and> set (mTransactions st') \<subseteq> set (mTransactions st)"
        if "map_of (mAccountStates q') k = Some st'" for st'
        using that e(5) Some by (auto split: if_splits)
    qed
  qed
qed

lemma shiftAccount_shrinks:
  assumes "shiftAccount k q = Some q'" "mBannedTransactions q = F # R"
    and "map_of (mAccountStates q') b = Some st'"
  shows "\<exists>st. map_of (mAccountStates q) b = Some st
     \<and> set (mTransactions st') \<subseteq> set (mTransactions st)"
proof (cases "b = k")
  case True
  with shiftAccount_effect [OF assms(1,2)] assms(3) show ?thesis by blast
next
  case False
  from shiftAccount_effect [OF assms(1,2)] False obtain ts where
    "map_of (mAccountStates q') b =
       (case map_of (mAccountStates q) b of None \<Rightarrow> None | Some sb \<Rightarrow> released b ts sb)"
    by blast
  with assms(3) obtain sb where "map_of (mAccountStates q) b = Some sb"
    "released b ts sb = Some st'" by (auto split: option.splits)
  with released_txs show ?thesis by auto
qed

lemma shiftAccount_ring:
  assumes "shiftAccount k q = Some q'" "mBannedTransactions q = F # R"
  shows "\<exists>F'. mBannedTransactions q' = F' # R \<and> F \<subseteq> F'
     \<and> (\<forall>h \<in> F'. h \<in> F \<or> (\<exists>st. map_of (mAccountStates q) k = Some st
            \<and> h \<in> getFullHash ` set (mTransactions st)))"
proof -
  from shiftAccount_effect [OF assms] obtain ts where
    t: "ts = [] \<or> (\<exists>st. map_of (mAccountStates q) k = Some st \<and> ts = mTransactions st)"
    and r: "mBannedTransactions q' = (getFullHash ` set ts \<union> F) # R" by blast
  show ?thesis
  proof (intro exI [of _ "getFullHash ` set ts \<union> F"] conjI ballI)
    show "mBannedTransactions q' = (getFullHash ` set ts \<union> F) # R" by (rule r)
    show "F \<subseteq> getFullHash ` set ts \<union> F" by blast
    fix h assume "h \<in> getFullHash ` set ts \<union> F"
    with t show "h \<in> F \<or> (\<exists>st. map_of (mAccountStates q) k = Some st
            \<and> h \<in> getFullHash ` set (mTransactions st))" by auto
  qed
qed

text \<open>The ring after a whole \<open>shift\<close>: a new front slot that holds hashes of transactions
  queued before, then the old slots but the last. No queue grows.\<close>

lemma shift_ring:
  assumes "shift q = Some q'"
  shows "\<exists>F. mBannedTransactions q' = F # butlast (mBannedTransactions q)
     \<and> (\<forall>h \<in> F. \<exists>k st. map_of (mAccountStates q) k = Some st
            \<and> h \<in> getFullHash ` set (mTransactions st))"
    and "\<forall>b st'. map_of (mAccountStates q') b = Some st' \<longrightarrow>
           (\<exists>st. map_of (mAccountStates q) b = Some st
              \<and> set (mTransactions st') \<subseteq> set (mTransactions st))"
proof -
  define q1 where "q1 = q\<lparr>mBannedTransactions := {} # butlast (mBannedTransactions q)\<rparr>"
  define P where "P s \<longleftrightarrow>
     (\<exists>F. mBannedTransactions s = F # butlast (mBannedTransactions q)
        \<and> (\<forall>h \<in> F. \<exists>k st. map_of (mAccountStates q) k = Some st
              \<and> h \<in> getFullHash ` set (mTransactions st)))
     \<and> (\<forall>b st'. map_of (mAccountStates s) b = Some st' \<longrightarrow>
           (\<exists>st. map_of (mAccountStates q) b = Some st
              \<and> set (mTransactions st') \<subseteq> set (mTransactions st)))" for s :: TransactionQueue
  from assms have f: "forEach shiftAccount (map fst (mAccountStates q1)) q1 = Some q'"
    by (auto simp add: shift_def Let_def q1_def split: if_splits)
  have p1: "P q1" by (auto simp add: P_def q1_def)
  have step: "P s'" if "P s" "shiftAccount k s = Some s'" for k s s'
  proof -
    from that(1) obtain F where r: "mBannedTransactions s = F # butlast (mBannedTransactions q)"
      and h: "\<forall>h \<in> F. \<exists>k st. map_of (mAccountStates q) k = Some st
              \<and> h \<in> getFullHash ` set (mTransactions st)"
      and m: "\<forall>b st'. map_of (mAccountStates s) b = Some st' \<longrightarrow>
           (\<exists>st. map_of (mAccountStates q) b = Some st
              \<and> set (mTransactions st') \<subseteq> set (mTransactions st))"
      unfolding P_def by blast
    from shiftAccount_ring [OF that(2) r] obtain F' where
      r': "mBannedTransactions s' = F' # butlast (mBannedTransactions q)"
      and h': "\<forall>h \<in> F'. h \<in> F \<or> (\<exists>st. map_of (mAccountStates s) k = Some st
            \<and> h \<in> getFullHash ` set (mTransactions st))" by blast
    have a: "\<forall>h \<in> F'. \<exists>k st. map_of (mAccountStates q) k = Some st
              \<and> h \<in> getFullHash ` set (mTransactions st)"
    proof
      fix x assume "x \<in> F'"
      with h' have "x \<in> F \<or> (\<exists>st. map_of (mAccountStates s) k = Some st
            \<and> x \<in> getFullHash ` set (mTransactions st))" by blast
      then show "\<exists>k st. map_of (mAccountStates q) k = Some st
              \<and> x \<in> getFullHash ` set (mTransactions st)"
      proof
        assume "x \<in> F" with h show ?thesis by blast
      next
        assume "\<exists>st. map_of (mAccountStates s) k = Some st
            \<and> x \<in> getFullHash ` set (mTransactions st)"
        then obtain st where s: "map_of (mAccountStates s) k = Some st"
          and x: "x \<in> getFullHash ` set (mTransactions st)" by blast
        from m s obtain st0 where "map_of (mAccountStates q) k = Some st0"
          "set (mTransactions st) \<subseteq> set (mTransactions st0)" by blast
        with x show ?thesis by blast
      qed
    qed
    have b: "\<exists>st. map_of (mAccountStates q) b = Some st
              \<and> set (mTransactions st') \<subseteq> set (mTransactions st)"
      if "map_of (mAccountStates s') b = Some st'" for b st'
    proof -
      from shiftAccount_shrinks [OF \<open>shiftAccount k s = Some s'\<close> r that]
      obtain st1 where "map_of (mAccountStates s) b = Some st1"
        "set (mTransactions st') \<subseteq> set (mTransactions st1)" by blast
      with m show ?thesis by (meson subset_trans)
    qed
    from r' a b show ?thesis unfolding P_def by blast
  qed
  have "P q'" by (rule forEach_invariant [where P = P, OF f p1]) (rule step)
  then show "\<exists>F. mBannedTransactions q' = F # butlast (mBannedTransactions q)
     \<and> (\<forall>h \<in> F. \<exists>k st. map_of (mAccountStates q) k = Some st
            \<and> h \<in> getFullHash ` set (mTransactions st))"
    and "\<forall>b st'. map_of (mAccountStates q') b = Some st' \<longrightarrow>
           (\<exists>st. map_of (mAccountStates q) b = Some st
              \<and> set (mTransactions st') \<subseteq> set (mTransactions st))"
    unfolding P_def by blast+
qed

subsection \<open>The ban ring under \<^verbatim>\<open>ban\<close> and \<^verbatim>\<open>shift\<close>\<close>

lemma dropOne_frame:
  assumes "dropOne k t q = Some q'"
  shows "mBannedTransactions q' = mBannedTransactions q"
    and "mPendingDepth q' = mPendingDepth q"
    and "mPoolLedgerMultiplier q' = mPoolLedgerMultiplier q"
    and "mQueueSizeOps_q q' = u64 (mQueueSizeOps_q q - int (getNumOperations t))"
proof -
  from assms obtain st where
    r: "releaseFeeMaybeEraseAccountState t
            (q\<lparr>mAccountStates :=
                  AList.update k
                    (st\<lparr>mQueueSizeOps := u64 (mQueueSizeOps st - int (getNumOperations t))\<rparr>)
                    (mAccountStates q),
               mQueueSizeOps_q := u64 (mQueueSizeOps_q q - int (getNumOperations t))\<rparr>) = Some q'"
    by (auto simp add: dropOne_def split: option.splits)
  from release_frame [OF r] show "mBannedTransactions q' = mBannedTransactions q"
    and "mPendingDepth q' = mPendingDepth q"
    and "mPoolLedgerMultiplier q' = mPoolLedgerMultiplier q"
    and "mQueueSizeOps_q q' = u64 (mQueueSizeOps_q q - int (getNumOperations t))"
    by simp_all
qed

lemma forEach_dropOne_ring:
  assumes "forEach (dropOne k) ts q = Some q'"
  shows "mBannedTransactions q' = mBannedTransactions q \<and> mPendingDepth q' = mPendingDepth q
     \<and> mPoolLedgerMultiplier q' = mPoolLedgerMultiplier q"
  by (rule forEach_invariant [where
        P = "\<lambda>s. mBannedTransactions s = mBannedTransactions q
                \<and> mPendingDepth s = mPendingDepth q
                \<and> mPoolLedgerMultiplier s = mPoolLedgerMultiplier q", OF assms])
     (auto dest: dropOne_frame)

lemma dropTransactions_Some:
  assumes "dropTransactions k b e q = Some q'"
  shows "\<exists>st q1 st1. map_of (mAccountStates q) k = Some st
     \<and> forEach (dropOne k) (take (e - b) (drop b (mTransactions st))) q = Some q1
     \<and> map_of (mAccountStates q1) k = Some st1
     \<and> q' = q1\<lparr>mAccountStates :=
           (if take b (mTransactions st1) @ drop e (mTransactions st1) = []
            then if mTotalFees st1 = 0 then AList.delete k (mAccountStates q1)
                 else AList.update k (st1\<lparr>mTransactions := [], mAge := 0\<rparr>) (mAccountStates q1)
            else AList.update k
                   (st1\<lparr>mTransactions :=
                          take b (mTransactions st1) @ drop e (mTransactions st1)\<rparr>)
                   (mAccountStates q1))\<rparr>"
proof -
  from assms obtain st where s: "map_of (mAccountStates q) k = Some st"
    by (auto simp add: dropTransactions_def split: option.splits)
  with assms obtain q1 where
    f: "forEach (dropOne k) (take (e - b) (drop b (mTransactions st))) q = Some q1"
    by (auto simp add: dropTransactions_def split: option.splits)
  with assms s obtain st1 where s1: "map_of (mAccountStates q1) k = Some st1"
    by (auto simp add: dropTransactions_def split: option.splits)
  from assms s f s1 have "q' = q1\<lparr>mAccountStates :=
           (if take b (mTransactions st1) @ drop e (mTransactions st1) = []
            then if mTotalFees st1 = 0 then AList.delete k (mAccountStates q1)
                 else AList.update k (st1\<lparr>mTransactions := [], mAge := 0\<rparr>) (mAccountStates q1)
            else AList.update k
                   (st1\<lparr>mTransactions :=
                          take b (mTransactions st1) @ drop e (mTransactions st1)\<rparr>)
                   (mAccountStates q1))\<rparr>"
    by (auto simp add: dropTransactions_def Let_def split: if_splits)
  with s f s1 show ?thesis by blast
qed

lemma dropTransactions_ring:
  assumes "dropTransactions k b e q = Some q'"
  shows "mBannedTransactions q' = mBannedTransactions q \<and> mPendingDepth q' = mPendingDepth q
     \<and> mPoolLedgerMultiplier q' = mPoolLedgerMultiplier q"
proof -
  from dropTransactions_Some [OF assms] obtain st q1 st1 where
    "map_of (mAccountStates q) k = Some st"
    and f: "forEach (dropOne k) (take (e - b) (drop b (mTransactions st))) q = Some q1"
    and "map_of (mAccountStates q1) k = Some st1"
    and q': "q' = q1\<lparr>mAccountStates :=
           (if take b (mTransactions st1) @ drop e (mTransactions st1) = []
            then if mTotalFees st1 = 0 then AList.delete k (mAccountStates q1)
                 else AList.update k (st1\<lparr>mTransactions := [], mAge := 0\<rparr>) (mAccountStates q1)
            else AList.update k
                   (st1\<lparr>mTransactions :=
                          take b (mTransactions st1) @ drop e (mTransactions st1)\<rparr>)
                   (mAccountStates q1))\<rparr>"
    by blast
  from forEach_dropOne_ring [OF f] show ?thesis unfolding q' by simp
qed

lemma forEach_emplace:
  assumes "forEach (\<lambda>t. bannedFront_emplace (getFullHash t)) ts q = Some q'"
    and "mBannedTransactions q = F # R"
  shows "q' = q\<lparr>mBannedTransactions := (getFullHash ` set ts \<union> F) # R\<rparr>"
  using assms
proof (induction ts arbitrary: q F)
  case Nil
  then show ?case by simp
next
  case (Cons t ts)
  from Cons.prems(1) obtain q1 where a: "bannedFront_emplace (getFullHash t) q = Some q1"
    and b: "forEach (\<lambda>t. bannedFront_emplace (getFullHash t)) ts q1 = Some q'"
    by (auto split: option.splits)
  from bannedFront_emplace_Some [OF a] Cons.prems(2)
  have q1: "q1 = q\<lparr>mBannedTransactions := insert (getFullHash t) F # R\<rparr>" by auto
  then have "mBannedTransactions q1 = insert (getFullHash t) F # R" by simp
  from Cons.IH [OF b this] q1 show ?case by simp
qed

lemma banAccount_ring:
  assumes "banAccount kv q = Some q'" "mBannedTransactions q = F # R"
  shows "\<exists>F'. mBannedTransactions q' = F' # R \<and> F \<subseteq> F'"
proof (cases "map_of (mAccountStates q) (fst kv)")
  case None
  with assms show ?thesis by (simp add: banAccount_def)
next
  case (Some st)
  show ?thesis
  proof (cases "mTransactions st = []")
    case True
    with assms Some show ?thesis by (simp add: banAccount_def)
  next
    case False
    with assms(1) Some obtain txIter q1 where
      e: "forEach (\<lambda>t. bannedFront_emplace (getFullHash t))
            (drop txIter (mTransactions st)) q = Some q1"
      and d: "dropTransactions (fst kv) txIter (length (mTransactions st)) q1 = Some q'"
      by (auto simp add: banAccount_def Let_def split: option.splits)
    from forEach_emplace [OF e assms(2)] dropTransactions_ring [OF d] show ?thesis by auto
  qed
qed

lemma ban_ring:
  assumes "ban banTxs q = Some q'"
  shows "\<exists>F R F'. mBannedTransactions q = F # R \<and> mBannedTransactions q' = F' # R
     \<and> F \<union> getFullHash ` set banTxs \<subseteq> F'"
proof -
  from assms obtain F R where r: "mBannedTransactions q = F # R"
    by (cases "mBannedTransactions q") (auto simp add: ban_def)
  from assms r obtain q1 where
    e: "forEach (\<lambda>tx. bannedFront_emplace (getFullHash tx)) banTxs q = Some q1"
    and f: "forEach banAccount (transactionsByAccount banTxs) q1 = Some q'"
    by (auto simp add: ban_def split: option.splits)
  from forEach_emplace [OF e r]
  have r1: "mBannedTransactions q1 = (getFullHash ` set banTxs \<union> F) # R" by simp
  have "\<exists>F'. mBannedTransactions q' = F' # R \<and> getFullHash ` set banTxs \<union> F \<subseteq> F'"
  proof (rule forEach_invariant [where
        P = "\<lambda>s. \<exists>F'. mBannedTransactions s = F' # R \<and> getFullHash ` set banTxs \<union> F \<subseteq> F'",
        OF f])
    show "\<exists>F'. mBannedTransactions q1 = F' # R \<and> getFullHash ` set banTxs \<union> F \<subseteq> F'"
      using r1 by simp
  next
    fix x s s'
    assume "\<exists>F'. mBannedTransactions s = F' # R \<and> getFullHash ` set banTxs \<union> F \<subseteq> F'"
      and b: "banAccount x s = Some s'"
    then obtain F1 where "mBannedTransactions s = F1 # R"
      "getFullHash ` set banTxs \<union> F \<subseteq> F1" by blast
    with banAccount_ring [OF b, of F1 R]
    show "\<exists>F'. mBannedTransactions s' = F' # R \<and> getFullHash ` set banTxs \<union> F \<subseteq> F'"
      by (meson subset_trans)
  qed
  with r show ?thesis by auto
qed

lemma shift_length:
  assumes "shift q = Some q'"
  shows "length (mBannedTransactions q') = length (mBannedTransactions q)"
    and "mBannedTransactions q \<noteq> []"
proof -
  from assms show ne: "mBannedTransactions q \<noteq> []" by (auto simp add: shift_def split: if_splits)
  from shift_ring(1) [OF assms] ne show "length (mBannedTransactions q') = length (mBannedTransactions q)"
    by auto
qed

lemma tryAdd_banned:
  "isBanned q (getFullHash tx) \<Longrightarrow> tryAdd lv tx q = Some (ADD_STATUS_TRY_AGAIN_LATER, None, q)"
  by (simp add: tryAdd_def canAdd_def)

lemma queued_entry:
  "map_of (mAccountStates q) k = Some st \<Longrightarrow> set (mTransactions st) \<subseteq> set (queued q)"
  by (auto simp add: queued_def dest!: map_of_SomeD)


subsection \<open>The accounts that \<^verbatim>\<open>shift\<close> visits before and after an eviction\<close>

lemma shift_unfold:
  assumes "shift q = Some q'"
  shows "forEach shiftAccount (map fst (mAccountStates q))
           (q\<lparr>mBannedTransactions := {} # butlast (mBannedTransactions q)\<rparr>) = Some q'"
  using assms by (auto simp add: shift_def Let_def split: if_splits)

text \<open>Before the loop reaches an account with queued transactions, its queue, age and
  operation count are as they were.\<close>

lemma shiftAccount_before:
  assumes "shiftAccount k s = Some s'" "k \<noteq> a"
    and "mBannedTransactions s = F # R"
    and "map_of (mAccountStates s) a = Some sa" "mTransactions sa \<noteq> []"
  shows "\<exists>sa' F'. map_of (mAccountStates s') a = Some sa'
     \<and> mTransactions sa' = mTransactions sa \<and> mAge sa' = mAge sa
     \<and> mQueueSizeOps sa' = mQueueSizeOps sa
     \<and> mBannedTransactions s' = F' # R \<and> mPendingDepth s' = mPendingDepth s"
proof -
  from assms(2) have ak: "a \<noteq> k" by simp
  from shiftAccount_effect [OF assms(1,3)] ak obtain ts where
    r: "mBannedTransactions s' = (getFullHash ` set ts \<union> F) # R"
    and d: "mPendingDepth s' = mPendingDepth s"
    and m: "map_of (mAccountStates s') a =
            (case map_of (mAccountStates s) a of
               None \<Rightarrow> None | Some sb \<Rightarrow> released a ts sb)"
    by blast
  from m assms(4,5) have "map_of (mAccountStates s') a
      = Some (sa\<lparr>mTotalFees := mTotalFees sa - feesOn a ts\<rparr>)"
    by (simp add: released_nonempty)
  with r d show ?thesis by simp
qed

text \<open>After its eviction the account is gone or empty with a non-zero total, and stays
  so until the loop ends.\<close>

lemma shiftAccount_after:
  assumes "shiftAccount k s = Some s'"
    and "mBannedTransactions s = F # R" "mPendingDepth s \<noteq> 0"
    and "case map_of (mAccountStates s) a of
           None \<Rightarrow> True
         | Some sa \<Rightarrow> mTransactions sa = [] \<and> mAge sa = 0 \<and> mQueueSizeOps sa = 0
                     \<and> mTotalFees sa \<noteq> 0"
  shows "(case map_of (mAccountStates s') a of
           None \<Rightarrow> True
         | Some sa \<Rightarrow> mTransactions sa = [] \<and> mAge sa = 0 \<and> mQueueSizeOps sa = 0
                     \<and> mTotalFees sa \<noteq> 0)
     \<and> (map_of (mAccountStates s) a = None \<longrightarrow> map_of (mAccountStates s') a = None)
     \<and> (\<exists>F'. mBannedTransactions s' = F' # R \<and> F \<subseteq> F')
     \<and> mPendingDepth s' = mPendingDepth s"
proof -
  from shiftAccount_effect [OF assms(1,2)] obtain ts where
    r: "mBannedTransactions s' = (getFullHash ` set ts \<union> F) # R"
    and d: "mPendingDepth s' = mPendingDepth s"
    and m: "\<forall>b. b \<noteq> k \<longrightarrow> map_of (mAccountStates s') b =
            (case map_of (mAccountStates s) b of
               None \<Rightarrow> None | Some sb \<Rightarrow> released b ts sb)"
    by blast
  have ring: "\<exists>F'. mBannedTransactions s' = F' # R \<and> F \<subseteq> F'" using r by blast
  show ?thesis
  proof (cases "map_of (mAccountStates s) a")
    case None
    have "map_of (mAccountStates s') a = None"
    proof (cases "k = a")
      case True
      with shiftAccount_absent [of s a] None assms(1) show ?thesis by simp
    next
      case False
      with m None show ?thesis by simp
    qed
    with ring d None show ?thesis by simp
  next
    case (Some sa)
    with assms(4) have e: "mTransactions sa = []" "mAge sa = 0" "mQueueSizeOps sa = 0"
      "mTotalFees sa \<noteq> 0" by simp_all
    show ?thesis
    proof (cases "k = a")
      case True
      have "mPendingDepth s \<noteq> (if mTransactions sa \<noteq> [] then mAge sa + 1 else mAge sa)"
        using e assms(3) by simp
      from shiftAccount_keep [OF Some [folded True] this [folded True]] assms(1) e True
      have "map_of (mAccountStates s') a = Some sa"
        by (auto simp add: update_conv')
      with e ring d Some show ?thesis by simp
    next
      case False
      with m Some have ma: "map_of (mAccountStates s') a = released a ts sa" by simp
      show ?thesis
      proof (cases "released a ts sa")
        case None
        with ma ring d Some show ?thesis by simp
      next
        case (Some sa')
        from released_txs [OF Some] released_empty_nonzero [OF Some e(1,4)] e ma Some ring d
          \<open>map_of (mAccountStates s) a = Some sa\<close>
        show ?thesis by simp
      qed
    qed
  qed
qed

subsection \<open>Dropping a range of transactions\<close>

lemma u64_sub: "u64 (u64 c - n) = u64 (c - n)"
  by (simp add: u64_def mod_diff_left_eq)

text \<open>The counter after the loop of dropTransactions has subtracted the operations of
  each dropped transaction.\<close>

lemma fold_u64_sub:
  "fold (\<lambda>t c. u64 (c - int (getNumOperations t))) ts c
     = (if ts = [] then c else u64 (c - opsOf ts))"
proof (induction ts arbitrary: c)
  case Nil
  then show ?case by simp
next
  case (Cons t ts)
  show ?case
  proof (cases "ts = []")
    case True
    then show ?thesis by (simp add: opsOf_def)
  next
    case False
    with Cons.IH [of "u64 (c - int (getNumOperations t))"] show ?thesis
      by (simp add: opsOf_def u64_sub algebra_simps)
  qed
qed

lemma dropOne_Some:
  assumes "dropOne k t q = Some q'"
  shows "\<exists>sk. map_of (mAccountStates q) k = Some sk
     \<and> releaseFeeMaybeEraseAccountState t
          (q\<lparr>mAccountStates :=
                AList.update k
                  (sk\<lparr>mQueueSizeOps := u64 (mQueueSizeOps sk - int (getNumOperations t))\<rparr>)
                  (mAccountStates q),
             mQueueSizeOps_q := u64 (mQueueSizeOps_q q - int (getNumOperations t))\<rparr>) = Some q'"
  using assms by (auto simp add: dropOne_def split: option.splits)

lemma dropOne_map:
  assumes "dropOne k t q = Some q'" "map_of (mAccountStates q) k = Some sk"
    "mTransactions sk \<noteq> []"
  shows "map_of (mAccountStates q') b =
     (if b = k
      then Some (sk\<lparr>mQueueSizeOps := u64 (mQueueSizeOps sk - int (getNumOperations t)),
                   mTotalFees := mTotalFees sk
                                 - (if getFeeSourceID t = k then getFeeBid t else 0)\<rparr>)
      else if b = getFeeSourceID t
      then (case map_of (mAccountStates q) b of
              None \<Rightarrow> None
            | Some sb \<Rightarrow> if mTransactions sb = [] \<and> mTotalFees sb = getFeeBid t then None
                         else Some (sb\<lparr>mTotalFees := mTotalFees sb - getFeeBid t\<rparr>))
      else map_of (mAccountStates q) b)"
    and "map_of (mAccountStates q) (getFeeSourceID t) \<noteq> None"
proof -
  from dropOne_Some [OF assms(1)] assms(2) have
    r: "releaseFeeMaybeEraseAccountState t
          (q\<lparr>mAccountStates :=
                AList.update k
                  (sk\<lparr>mQueueSizeOps := u64 (mQueueSizeOps sk - int (getNumOperations t))\<rparr>)
                  (mAccountStates q),
             mQueueSizeOps_q := u64 (mQueueSizeOps_q q - int (getNumOperations t))\<rparr>) = Some q'"
    by simp
  from release_map [OF r, of b] assms(2,3) show "map_of (mAccountStates q') b =
     (if b = k
      then Some (sk\<lparr>mQueueSizeOps := u64 (mQueueSizeOps sk - int (getNumOperations t)),
                   mTotalFees := mTotalFees sk
                                 - (if getFeeSourceID t = k then getFeeBid t else 0)\<rparr>)
      else if b = getFeeSourceID t
      then (case map_of (mAccountStates q) b of
              None \<Rightarrow> None
            | Some sb \<Rightarrow> if mTransactions sb = [] \<and> mTotalFees sb = getFeeBid t then None
                         else Some (sb\<lparr>mTotalFees := mTotalFees sb - getFeeBid t\<rparr>))
      else map_of (mAccountStates q) b)"
    by (auto simp add: update_conv')
  from release_present [OF r] assms(2) show "map_of (mAccountStates q) (getFeeSourceID t) \<noteq> None"
    by (auto simp add: update_conv' split: if_splits)
qed

lemma forEach_dropOne_absent:
  assumes "forEach (dropOne k) ts q = Some q'" "map_of (mAccountStates q) b = None"
    and "map_of (mAccountStates q) k = Some sk" "mTransactions sk \<noteq> []"
  shows "(\<forall>t \<in> set ts. getFeeSourceID t \<noteq> b) \<and> map_of (mAccountStates q') b = None"
  using assms
proof (induction ts arbitrary: q sk)
  case Nil
  then show ?case by simp
next
  case (Cons t ts)
  from Cons.prems(1) obtain q1 where s: "dropOne k t q = Some q1"
    and r: "forEach (dropOne k) ts q1 = Some q'"
    by (auto split: option.splits)
  from Cons.prems(2,3) have bk: "b \<noteq> k" by auto
  note m = dropOne_map [OF s Cons.prems(3,4)]
  from m(2) Cons.prems(2) have ne: "getFeeSourceID t \<noteq> b" by auto
  with m(1) [of b] bk Cons.prems(2) have n1: "map_of (mAccountStates q1) b = None" by simp
  from m(1) [of k] obtain sk1 where k1: "map_of (mAccountStates q1) k = Some sk1"
    and t1: "mTransactions sk1 = mTransactions sk" by simp
  from Cons.IH [OF r n1 k1] t1 Cons.prems(4) ne show ?case by simp
qed

lemma forEach_dropOne_map:
  assumes "forEach (dropOne k) ts q = Some q'"
    and "map_of (mAccountStates q) k = Some sk" "mTransactions sk \<noteq> []"
  shows "map_of (mAccountStates q') b =
     (if b = k
      then Some (sk\<lparr>mQueueSizeOps :=
                     fold (\<lambda>t c. u64 (c - int (getNumOperations t))) ts (mQueueSizeOps sk),
                   mTotalFees := mTotalFees sk - feesOn k ts\<rparr>)
      else (case map_of (mAccountStates q) b of
              None \<Rightarrow> None | Some sb \<Rightarrow> released b ts sb))"
  using assms
proof (induction ts arbitrary: q sk)
  case Nil
  then show ?case by (auto split: option.splits)
next
  case (Cons t ts)
  from Cons.prems(1) obtain q1 where s: "dropOne k t q = Some q1"
    and r: "forEach (dropOne k) ts q1 = Some q'"
    by (auto split: option.splits)
  note m = dropOne_map [OF s Cons.prems(2,3)]
  define sk1 where "sk1 = sk\<lparr>mQueueSizeOps := u64 (mQueueSizeOps sk - int (getNumOperations t)),
                   mTotalFees := mTotalFees sk
                                 - (if getFeeSourceID t = k then getFeeBid t else 0)\<rparr>"
  from m(1) [of k] have k1: "map_of (mAccountStates q1) k = Some sk1" by (simp add: sk1_def)
  have t1: "mTransactions sk1 \<noteq> []" using Cons.prems(3) by (simp add: sk1_def)
  note ih = Cons.IH [OF r k1 t1]
  show ?case
  proof (cases "b = k")
    case True
    with ih show ?thesis by (simp add: sk1_def algebra_simps)
  next
    case bk: False
    with ih have ih': "map_of (mAccountStates q') b =
        (case map_of (mAccountStates q1) b of None \<Rightarrow> None | Some sb \<Rightarrow> released b ts sb)"
      by simp
    show ?thesis
    proof (cases "map_of (mAccountStates q) b")
      case None
      with forEach_dropOne_absent [OF Cons.prems(1) None Cons.prems(2,3)] bk show ?thesis
        by simp
    next
      case (Some sb)
      show ?thesis
      proof (cases "b = getFeeSourceID t")
        case False
        with m(1) [of b] bk Some ih' show ?thesis by (simp add: released_def)
      next
        case True
        show ?thesis
        proof (cases "mTransactions sb = [] \<and> mTotalFees sb = getFeeBid t")
          case gone: True
          with m(1) [of b] bk Some True have n1: "map_of (mAccountStates q1) b = None" by simp
          from forEach_dropOne_absent [OF r n1 k1 t1]
          have "feesOn b ts = 0" "map_of (mAccountStates q') b = None"
            using feesOn_none by auto
          with Some True gone bk show ?thesis by (simp add: released_def)
        next
          case kept: False
          with m(1) [of b] bk Some True have
            s1: "map_of (mAccountStates q1) b
                = Some (sb\<lparr>mTotalFees := mTotalFees sb - getFeeBid t\<rparr>)"
            by auto
          have "released b ts (sb\<lparr>mTotalFees := mTotalFees sb - getFeeBid t\<rparr>)
              = released b (t # ts) sb"
          proof (cases "\<exists>u \<in> set ts. getFeeSourceID u = b")
            case True
            then show ?thesis using \<open>b = getFeeSourceID t\<close>
              by (auto simp add: released_def algebra_simps)
          next
            case False
            then have "feesOn b ts = 0" using feesOn_none by auto
            with False kept True show ?thesis by (auto simp add: released_def)
          qed
          with ih' s1 Some bk show ?thesis by simp
        qed
      qed
    qed
  qed
qed

lemma forEach_dropOne_counter:
  assumes "forEach (dropOne k) ts q = Some q'"
  shows "mQueueSizeOps_q q'
     = fold (\<lambda>t c. u64 (c - int (getNumOperations t))) ts (mQueueSizeOps_q q)"
  using assms
proof (induction ts arbitrary: q)
  case Nil
  then show ?case by simp
next
  case (Cons t ts)
  from Cons.prems(1) obtain q1 where s: "dropOne k t q = Some q1"
    and r: "forEach (dropOne k) ts q1 = Some q'"
    by (auto split: option.splits)
  from Cons.IH [OF r] dropOne_frame(4) [OF s] show ?case by simp
qed

lemma take_drop_filter:
  assumes "n \<le> length xs" "\<forall>j<n. P (xs ! j)" "\<forall>j. n \<le> j \<and> j < length xs \<longrightarrow> \<not> P (xs ! j)"
  shows "take n xs = filter P xs" "drop n xs = filter (\<lambda>x. \<not> P x) xs"
proof -
  have a: "\<forall>x \<in> set (take n xs). P x"
  proof
    fix x assume "x \<in> set (take n xs)"
    then obtain j where "j < length (take n xs)" "take n xs ! j = x"
      by (auto simp add: in_set_conv_nth)
    with assms(1,2) show "P x" by auto
  qed
  have b: "\<forall>x \<in> set (drop n xs). \<not> P x"
  proof
    fix x assume "x \<in> set (drop n xs)"
    then obtain j where j: "j < length (drop n xs)" "drop n xs ! j = x"
      by (auto simp add: in_set_conv_nth)
    then have "n + j < length xs" "xs ! (n + j) = x" using assms(1) by auto
    with assms(3) show "\<not> P x" by (metis le_add1)
  qed
  have "filter P xs = filter P (take n xs) @ filter P (drop n xs)"
    by (metis append_take_drop_id filter_append)
  also have "\<dots> = take n xs" using a b by (simp add: filter_id_conv filter_empty_conv)
  finally show "take n xs = filter P xs" by simp
  have "filter (\<lambda>x. \<not> P x) xs
      = filter (\<lambda>x. \<not> P x) (take n xs) @ filter (\<lambda>x. \<not> P x) (drop n xs)"
    by (metis append_take_drop_id filter_append)
  also have "\<dots> = drop n xs" using a b by (simp add: filter_id_conv filter_empty_conv)
  finally show "drop n xs = filter (\<lambda>x. \<not> P x) xs" by simp
qed

text \<open>In a contiguous queue whose head is at most \<open>m\<close>, the iterator that removeApplied
  computes splits the queue at \<open>m\<close>.\<close>

lemma applied_split:
  assumes "contiguous txs" "txs \<noteq> []" "getSeqNum (hd txs) \<le> m"
    and "getSeqNum (last txs) < INT64_MAX"
  shows "\<exists>found iter. findBySeq m txs (length txs) = Some (found, iter)
     \<and> take (if iter \<noteq> length txs then iter + 1 else iter) txs
         = filter (\<lambda>t. getSeqNum t \<le> m) txs
     \<and> drop (if iter \<noteq> length txs then iter + 1 else iter) txs
         = filter (\<lambda>t. \<not> getSeqNum t \<le> m) txs
     \<and> 0 < (if iter \<noteq> length txs then iter + 1 else iter)"
proof -
  let ?f = "getSeqNum (hd txs)"
  let ?n = "length txs"
  have len: "0 < ?n" using assms(2) by simp
  note nth = contiguous_nth [OF assms(1)]
  show ?thesis
  proof (cases "m > ?f + int ?n")
    case True
    then have f: "findBySeq m txs ?n = Some (False, ?n)"
      unfolding findBySeq_contiguous [OF assms(1,2,4)] by simp
    have "\<forall>j < ?n. getSeqNum (txs ! j) \<le> m" using nth True by auto
    from take_drop_filter [where P = "\<lambda>t. getSeqNum t \<le> m", OF le_refl this] f len
    show ?thesis by auto
  next
    case False
    with assms(3) have f: "findBySeq m txs ?n = Some (True, nat (m - ?f))"
      unfolding findBySeq_contiguous [OF assms(1,2,4)] by simp
    define n where "n = (if nat (m - ?f) \<noteq> ?n then nat (m - ?f) + 1 else nat (m - ?f))"
    have nle: "n \<le> ?n" using False assms(3) by (auto simp add: n_def)
    have npos: "0 < n" using len by (auto simp add: n_def)
    have lo: "\<forall>j < n. getSeqNum (txs ! j) \<le> m"
    proof (intro allI impI)
      fix j assume j: "j < n"
      with nle have "j < ?n" by simp
      from nth [OF this] j False assms(3) show "getSeqNum (txs ! j) \<le> m"
        by (auto simp add: n_def split: if_splits)
    qed
    have hi: "\<forall>j. n \<le> j \<and> j < ?n \<longrightarrow> \<not> getSeqNum (txs ! j) \<le> m"
    proof (intro allI impI)
      fix j assume j: "n \<le> j \<and> j < ?n"
      then have "j < ?n" by simp
      from nth [OF this] j assms(3) show "\<not> getSeqNum (txs ! j) \<le> m"
        by (auto simp add: n_def split: if_splits)
    qed
    from take_drop_filter [where P = "\<lambda>t. getSeqNum t \<le> m", OF nle lo hi] f npos
    show ?thesis unfolding n_def by auto
  qed
qed

lemma dropTransactions_effect:
  assumes "dropTransactions k 0 e q = Some q'"
    and "map_of (mAccountStates q) k = Some sk" "mTransactions sk \<noteq> []" "0 < e"
  shows "map_of (mAccountStates q') k =
     (if drop e (mTransactions sk) = []
      then if mTotalFees sk - feesOn k (take e (mTransactions sk)) = 0 then None
           else Some (sk\<lparr>mQueueSizeOps :=
                           u64 (mQueueSizeOps sk - opsOf (take e (mTransactions sk))),
                         mTotalFees := mTotalFees sk - feesOn k (take e (mTransactions sk)),
                         mTransactions := [], mAge := 0\<rparr>)
      else Some (sk\<lparr>mQueueSizeOps :=
                       u64 (mQueueSizeOps sk - opsOf (take e (mTransactions sk))),
                     mTotalFees := mTotalFees sk - feesOn k (take e (mTransactions sk)),
                     mTransactions := drop e (mTransactions sk)\<rparr>))"
    and "b \<noteq> k \<Longrightarrow> map_of (mAccountStates q') b =
           (case map_of (mAccountStates q) b of
              None \<Rightarrow> None | Some sb \<Rightarrow> released b (take e (mTransactions sk)) sb)"
    and "mQueueSizeOps_q q' = u64 (mQueueSizeOps_q q - opsOf (take e (mTransactions sk)))"
proof -
  let ?ts = "take e (mTransactions sk)"
  have tne: "?ts \<noteq> []" using assms(3,4) by (cases "mTransactions sk") auto
  from dropTransactions_Some [OF assms(1)] assms(2) obtain q1 st1 where
    f: "forEach (dropOne k) ?ts q = Some q1"
    and s1: "map_of (mAccountStates q1) k = Some st1"
    and q': "q' = q1\<lparr>mAccountStates :=
           (if take 0 (mTransactions st1) @ drop e (mTransactions st1) = []
            then if mTotalFees st1 = 0 then AList.delete k (mAccountStates q1)
                 else AList.update k (st1\<lparr>mTransactions := [], mAge := 0\<rparr>) (mAccountStates q1)
            else AList.update k
                   (st1\<lparr>mTransactions :=
                          take 0 (mTransactions st1) @ drop e (mTransactions st1)\<rparr>)
                   (mAccountStates q1))\<rparr>"
    by auto
  note m = forEach_dropOne_map [OF f assms(2,3)]
  from m [of k] s1 have st1: "st1 = sk\<lparr>mQueueSizeOps := u64 (mQueueSizeOps sk - opsOf ?ts),
                   mTotalFees := mTotalFees sk - feesOn k ?ts\<rparr>"
    using tne by (simp add: fold_u64_sub)
  show "map_of (mAccountStates q') k =
     (if drop e (mTransactions sk) = []
      then if mTotalFees sk - feesOn k ?ts = 0 then None
           else Some (sk\<lparr>mQueueSizeOps := u64 (mQueueSizeOps sk - opsOf ?ts),
                         mTotalFees := mTotalFees sk - feesOn k ?ts,
                         mTransactions := [], mAge := 0\<rparr>)
      else Some (sk\<lparr>mQueueSizeOps := u64 (mQueueSizeOps sk - opsOf ?ts),
                     mTotalFees := mTotalFees sk - feesOn k ?ts,
                     mTransactions := drop e (mTransactions sk)\<rparr>))"
    unfolding q' st1 by (simp add: update_conv' delete_conv')
  show "map_of (mAccountStates q') b =
           (case map_of (mAccountStates q) b of
              None \<Rightarrow> None | Some sb \<Rightarrow> released b ?ts sb)" if "b \<noteq> k"
  proof -
    have "map_of (mAccountStates q') b = map_of (mAccountStates q1) b"
      unfolding q' using that by (simp add: update_conv' delete_conv')
    with m [of b] that show ?thesis by simp
  qed
  show "mQueueSizeOps_q q' = u64 (mQueueSizeOps_q q - opsOf ?ts)"
    using forEach_dropOne_counter [OF f] tne unfolding q' by (simp add: fold_u64_sub)
qed

subsection \<open>The loop of \<^verbatim>\<open>removeApplied\<close>\<close>

lemma fold_max_Max:
  fixes f :: "'a \<Rightarrow> int"
  shows "fold (\<lambda>t s. max s (f t)) ts s0 = Max (insert s0 (f ` set ts))"
proof (induction ts arbitrary: s0)
  case Nil
  then show ?case by simp
next
  case (Cons t ts)
  have "fold (\<lambda>t s. max s (f t)) (t # ts) s0 = Max (insert (max s0 (f t)) (f ` set ts))"
    using Cons.IH by simp
  also have "\<dots> = Max (insert s0 (insert (f t) (f ` set ts)))"
  proof (cases "set ts = {}")
    case True
    then show ?thesis by (simp add: max.commute)
  next
    case False
    then show ?thesis by (simp add: max.assoc max.commute max.left_commute)
  qed
  finally show ?case by simp
qed

lemma seqByAccount_keys:
  "map fst (seqByAccount appliedTxs) = sort (remdups (map getSourceID appliedTxs))"
  by (simp add: seqByAccount_def comp_def)

lemma seqByAccount_entry:
  assumes "a \<in> getSourceID ` set appliedTxs"
  shows "\<exists>pre post. seqByAccount appliedTxs
       = pre @ (a, Max (insert 0 (getSeqNum ` {t \<in> set appliedTxs. getSourceID t = a}))) # post
     \<and> a \<notin> fst ` set pre \<and> a \<notin> fst ` set post"
proof -
  let ?m = "Max (insert 0 (getSeqNum ` {t \<in> set appliedTxs. getSourceID t = a}))"
  have d: "distinct (map fst (seqByAccount appliedTxs))"
    by (simp add: seqByAccount_keys)
  have "a \<in> set (sort (remdups (map getSourceID appliedTxs)))" using assms by simp
  then have "(a, fold (\<lambda>tx seq. max seq (getSeqNum tx))
                  (filter (\<lambda>tx. getSourceID tx = a) appliedTxs) 0)
             \<in> set (seqByAccount appliedTxs)"
    unfolding seqByAccount_def set_map by (rule rev_image_eqI) simp
  moreover have "fold (\<lambda>tx seq. max seq (getSeqNum tx))
                  (filter (\<lambda>tx. getSourceID tx = a) appliedTxs) 0 = ?m"
    by (simp add: fold_max_Max)
  ultimately have "(a, ?m) \<in> set (seqByAccount appliedTxs)" by simp
  from split_list [OF this] obtain pre post where
    s: "seqByAccount appliedTxs = pre @ (a, ?m) # post" by blast
  with d have "a \<notin> fst ` set pre" "a \<notin> fst ` set post" by auto
  with s show ?thesis by blast
qed

lemma removeAppliedAccount_skip:
  assumes "map_of (mAccountStates q) k = Some sk" "mTransactions sk \<noteq> []"
    "m < getSeqNum (hd (mTransactions sk))"
  shows "removeAppliedAccount (k, m) q = Some q"
  using assms by (simp add: removeAppliedAccount_def Let_def)

text \<open>What the iteration of removeApplied for the entry \<open>(k, m)\<close> does when it drops
  transactions: \<open>e\<close> is the iterator past the last dropped transaction.\<close>

lemma removeAppliedAccount_Some:
  assumes "removeAppliedAccount (k, m) q = Some q'"
    and "map_of (mAccountStates q) k = Some sk" "mTransactions sk \<noteq> []"
    "getSeqNum (hd (mTransactions sk)) \<le> m"
  shows "\<exists>found iter. findBySeq m (mTransactions sk) (length (mTransactions sk)) = Some (found, iter)
     \<and> dropTransactions k 0 (if iter \<noteq> length (mTransactions sk) then iter + 1 else iter)
          (q\<lparr>mAccountStates := AList.update k (sk\<lparr>mAge := 0\<rparr>) (mAccountStates q)\<rparr>) = Some q'"
proof -
  have u: "removeAppliedAccount (k, m) q =
      (case findBySeq m (mTransactions sk) (length (mTransactions sk)) of
         None \<Rightarrow> None
       | Some (found, iter) \<Rightarrow>
           dropTransactions k 0 (if iter \<noteq> length (mTransactions sk) then iter + 1 else iter)
             (q\<lparr>mAccountStates := AList.update k (sk\<lparr>mAge := 0\<rparr>) (mAccountStates q)\<rparr>))"
    unfolding removeAppliedAccount_def
    by (simp only: fst_conv snd_conv assms(2,3,4) option.case Let_def if_False if_True)
  show ?thesis
  proof (cases "findBySeq m (mTransactions sk) (length (mTransactions sk))")
    case None
    with u assms(1) show ?thesis by simp
  next
    case (Some r)
    obtain found iter where r: "r = (found, iter)" by (cases r)
    from u assms(1) Some r show ?thesis by simp
  qed
qed

lemma removeAppliedAccount_effect:
  assumes "removeAppliedAccount kv q = Some q'"
  shows "mBannedTransactions q' = mBannedTransactions q
     \<and> (\<exists>ts. \<forall>b. b \<noteq> fst kv \<longrightarrow> map_of (mAccountStates q') b =
            (case map_of (mAccountStates q) b of
               None \<Rightarrow> None | Some sb \<Rightarrow> released b ts sb))"
proof (cases "\<exists>sk. map_of (mAccountStates q) (fst kv) = Some sk \<and> mTransactions sk \<noteq> []
                \<and> getSeqNum (hd (mTransactions sk)) \<le> snd kv")
  case False
  with assms have "q' = q"
    by (auto simp add: removeAppliedAccount_def Let_def split: option.splits if_splits)
  then show ?thesis by (auto intro!: exI [of _ "[]"] split: option.splits)
next
  case True
  then obtain sk where sk: "map_of (mAccountStates q) (fst kv) = Some sk"
    "mTransactions sk \<noteq> []" "getSeqNum (hd (mTransactions sk)) \<le> snd kv" by blast
  from removeAppliedAccount_Some [of "fst kv" "snd kv", OF _ sk] assms obtain found iter where
    f: "findBySeq (snd kv) (mTransactions sk) (length (mTransactions sk)) = Some (found, iter)"
    and d: "dropTransactions (fst kv) 0
          (if iter \<noteq> length (mTransactions sk) then iter + 1 else iter)
          (q\<lparr>mAccountStates := AList.update (fst kv) (sk\<lparr>mAge := 0\<rparr>) (mAccountStates q)\<rparr>)
        = Some q'" by auto
  let ?e = "if iter \<noteq> length (mTransactions sk) then iter + 1 else iter"
  let ?q0 = "q\<lparr>mAccountStates := AList.update (fst kv) (sk\<lparr>mAge := 0\<rparr>) (mAccountStates q)\<rparr>"
  have e: "0 < ?e" using sk(2) by auto
  have m0: "map_of (mAccountStates ?q0) (fst kv) = Some (sk\<lparr>mAge := 0\<rparr>)"
    by (simp add: update_conv')
  have t0: "mTransactions (sk\<lparr>mAge := 0\<rparr>) \<noteq> []" using sk(2) by simp
  have tx0: "mTransactions (sk\<lparr>mAge := 0\<rparr>) = mTransactions sk" by simp
  note eff = dropTransactions_effect [OF d m0 t0 e, unfolded tx0]
  have "map_of (mAccountStates q') b =
            (case map_of (mAccountStates q) b of
               None \<Rightarrow> None | Some sb \<Rightarrow> released b (take ?e (mTransactions sk)) sb)"
    if "b \<noteq> fst kv" for b
  proof -
    have "map_of (mAccountStates ?q0) b = map_of (mAccountStates q) b"
      using that by (simp add: update_conv')
    with eff(2) [OF that] show ?thesis by (simp only:)
  qed
  moreover have "mBannedTransactions q' = mBannedTransactions q"
    using dropTransactions_ring [OF d] by simp
  ultimately show ?thesis by blast
qed

text \<open>An entry that other accounts' releases may touch: its queue, age and operation
  count stay, and an empty entry stays away from a total of 0.\<close>

lemma released_keeps:
  assumes "map_of (mAccountStates s') a =
            (case map_of (mAccountStates s) a of
               None \<Rightarrow> None | Some sb \<Rightarrow> released a ts sb)"
    and "case map_of (mAccountStates s) a of
           None \<Rightarrow> txs = []
         | Some sa \<Rightarrow> mTransactions sa = txs \<and> mAge sa = age \<and> mQueueSizeOps sa = ops
                     \<and> (txs = [] \<longrightarrow> mTotalFees sa \<noteq> 0)"
  shows "case map_of (mAccountStates s') a of
           None \<Rightarrow> txs = []
         | Some sa \<Rightarrow> mTransactions sa = txs \<and> mAge sa = age \<and> mQueueSizeOps sa = ops
                     \<and> (txs = [] \<longrightarrow> mTotalFees sa \<noteq> 0)"
proof (cases "map_of (mAccountStates s) a")
  case None
  with assms show ?thesis by simp
next
  case (Some sa)
  show ?thesis
  proof (cases "released a ts sa")
    case None
    then have "mTransactions sa = []" by (auto simp add: released_def split: if_splits)
    with assms Some None show ?thesis by simp
  next
    case r: (Some sa')
    from released_txs [OF r] released_empty_nonzero [OF r] assms Some r show ?thesis
      by auto
  qed
qed

lemma forEach_removeApplied_keeps:
  assumes "forEach removeAppliedAccount kvs s = Some s'" "a \<notin> fst ` set kvs"
    and "case map_of (mAccountStates s) a of
           None \<Rightarrow> txs = []
         | Some sa \<Rightarrow> mTransactions sa = txs \<and> mAge sa = age \<and> mQueueSizeOps sa = ops
                     \<and> (txs = [] \<longrightarrow> mTotalFees sa \<noteq> 0)"
  shows "(case map_of (mAccountStates s') a of
           None \<Rightarrow> txs = []
         | Some sa \<Rightarrow> mTransactions sa = txs \<and> mAge sa = age \<and> mQueueSizeOps sa = ops
                     \<and> (txs = [] \<longrightarrow> mTotalFees sa \<noteq> 0))
     \<and> mBannedTransactions s' = mBannedTransactions s"
proof (rule forEach_invariant [where
      P = "\<lambda>x. (case map_of (mAccountStates x) a of
           None \<Rightarrow> txs = []
         | Some sa \<Rightarrow> mTransactions sa = txs \<and> mAge sa = age \<and> mQueueSizeOps sa = ops
                     \<and> (txs = [] \<longrightarrow> mTotalFees sa \<noteq> 0))
     \<and> mBannedTransactions x = mBannedTransactions s", OF assms(1)])
  show "(case map_of (mAccountStates s) a of
           None \<Rightarrow> txs = []
         | Some sa \<Rightarrow> mTransactions sa = txs \<and> mAge sa = age \<and> mQueueSizeOps sa = ops
                     \<and> (txs = [] \<longrightarrow> mTotalFees sa \<noteq> 0))
     \<and> mBannedTransactions s = mBannedTransactions s"
    using assms(3) by simp
next
  fix kv x x'
  assume kv: "kv \<in> set kvs"
    and p: "(case map_of (mAccountStates x) a of
           None \<Rightarrow> txs = []
         | Some sa \<Rightarrow> mTransactions sa = txs \<and> mAge sa = age \<and> mQueueSizeOps sa = ops
                     \<and> (txs = [] \<longrightarrow> mTotalFees sa \<noteq> 0))
     \<and> mBannedTransactions x = mBannedTransactions s"
    and r: "removeAppliedAccount kv x = Some x'"
  from kv assms(2) have ne: "a \<noteq> fst kv" by auto
  from removeAppliedAccount_effect [OF r] ne obtain ts where
    ring: "mBannedTransactions x' = mBannedTransactions x"
    and m: "map_of (mAccountStates x') a =
            (case map_of (mAccountStates x) a of
               None \<Rightarrow> None | Some sb \<Rightarrow> released a ts sb)" by blast
  from p have p1: "case map_of (mAccountStates x) a of
           None \<Rightarrow> txs = []
         | Some sa \<Rightarrow> mTransactions sa = txs \<and> mAge sa = age \<and> mQueueSizeOps sa = ops
                     \<and> (txs = [] \<longrightarrow> mTotalFees sa \<noteq> 0)" by simp
  from released_keeps [OF m p1] ring p
  show "(case map_of (mAccountStates x') a of
           None \<Rightarrow> txs = []
         | Some sa \<Rightarrow> mTransactions sa = txs \<and> mAge sa = age \<and> mQueueSizeOps sa = ops
                     \<and> (txs = [] \<longrightarrow> mTotalFees sa \<noteq> 0))
     \<and> mBannedTransactions x' = mBannedTransactions s" by simp
qed

lemma removeAppliedAccount_drop:
  assumes "removeAppliedAccount (k, m) q = Some q'"
    and "map_of (mAccountStates q) k = Some sk" "mTransactions sk \<noteq> []"
    and "contiguous (mTransactions sk)" "getSeqNum (hd (mTransactions sk)) \<le> m"
    and "getSeqNum (last (mTransactions sk)) < INT64_MAX"
  shows "map_of (mAccountStates q') k =
     (if filter (\<lambda>t. \<not> getSeqNum t \<le> m) (mTransactions sk) = []
      then if mTotalFees sk - feesOn k (filter (\<lambda>t. getSeqNum t \<le> m) (mTransactions sk)) = 0
           then None
           else Some \<lparr>mTotalFees = mTotalFees sk
                          - feesOn k (filter (\<lambda>t. getSeqNum t \<le> m) (mTransactions sk)),
                      mQueueSizeOps = u64 (mQueueSizeOps sk
                          - opsOf (filter (\<lambda>t. getSeqNum t \<le> m) (mTransactions sk))),
                      mAge = 0, mTransactions = []\<rparr>
      else Some \<lparr>mTotalFees = mTotalFees sk
                     - feesOn k (filter (\<lambda>t. getSeqNum t \<le> m) (mTransactions sk)),
                 mQueueSizeOps = u64 (mQueueSizeOps sk
                     - opsOf (filter (\<lambda>t. getSeqNum t \<le> m) (mTransactions sk))),
                 mAge = 0,
                 mTransactions = filter (\<lambda>t. \<not> getSeqNum t \<le> m) (mTransactions sk)\<rparr>)"
    and "b \<noteq> k \<Longrightarrow> map_of (mAccountStates q') b =
           (case map_of (mAccountStates q) b of
              None \<Rightarrow> None
            | Some sb \<Rightarrow> released b (filter (\<lambda>t. getSeqNum t \<le> m) (mTransactions sk)) sb)"
    and "mQueueSizeOps_q q'
           = u64 (mQueueSizeOps_q q - opsOf (filter (\<lambda>t. getSeqNum t \<le> m) (mTransactions sk)))"
    and "mBannedTransactions q' = mBannedTransactions q"
proof -
  let ?txs = "mTransactions sk"
  let ?q0 = "q\<lparr>mAccountStates := AList.update k (sk\<lparr>mAge := 0\<rparr>) (mAccountStates q)\<rparr>"
  from removeAppliedAccount_Some [OF assms(1,2,3,5)] obtain found iter where
    f: "findBySeq m ?txs (length ?txs) = Some (found, iter)"
    and d: "dropTransactions k 0 (if iter \<noteq> length ?txs then iter + 1 else iter) ?q0 = Some q'"
    by blast
  let ?e = "if iter \<noteq> length ?txs then iter + 1 else iter"
  from applied_split [OF assms(4,3,5,6)] f have
    tk: "take ?e ?txs = filter (\<lambda>t. getSeqNum t \<le> m) ?txs"
    and dr: "drop ?e ?txs = filter (\<lambda>t. \<not> getSeqNum t \<le> m) ?txs"
    and e: "0 < ?e" by auto
  have m0: "map_of (mAccountStates ?q0) k = Some (sk\<lparr>mAge := 0\<rparr>)"
    by (simp add: update_conv')
  have t0: "mTransactions (sk\<lparr>mAge := 0\<rparr>) \<noteq> []" using assms(3) by simp
  have tx0: "mTransactions (sk\<lparr>mAge := 0\<rparr>) = ?txs" by simp
  note eff = dropTransactions_effect [OF d m0 t0 e, unfolded tx0 tk dr]
  show "map_of (mAccountStates q') k =
     (if filter (\<lambda>t. \<not> getSeqNum t \<le> m) ?txs = []
      then if mTotalFees sk - feesOn k (filter (\<lambda>t. getSeqNum t \<le> m) ?txs) = 0
           then None
           else Some \<lparr>mTotalFees = mTotalFees sk
                          - feesOn k (filter (\<lambda>t. getSeqNum t \<le> m) ?txs),
                      mQueueSizeOps = u64 (mQueueSizeOps sk
                          - opsOf (filter (\<lambda>t. getSeqNum t \<le> m) ?txs)),
                      mAge = 0, mTransactions = []\<rparr>
      else Some \<lparr>mTotalFees = mTotalFees sk
                     - feesOn k (filter (\<lambda>t. getSeqNum t \<le> m) ?txs),
                 mQueueSizeOps = u64 (mQueueSizeOps sk
                     - opsOf (filter (\<lambda>t. getSeqNum t \<le> m) ?txs)),
                 mAge = 0,
                 mTransactions = filter (\<lambda>t. \<not> getSeqNum t \<le> m) ?txs\<rparr>)"
    unfolding eff(1) by simp
  show "map_of (mAccountStates q') b =
           (case map_of (mAccountStates q) b of
              None \<Rightarrow> None
            | Some sb \<Rightarrow> released b (filter (\<lambda>t. getSeqNum t \<le> m) ?txs) sb)" if "b \<noteq> k"
  proof -
    have "map_of (mAccountStates ?q0) b = map_of (mAccountStates q) b"
      using that by (simp add: update_conv')
    with eff(2) [OF that] show ?thesis by (simp only:)
  qed
  show "mQueueSizeOps_q q'
           = u64 (mQueueSizeOps_q q - opsOf (filter (\<lambda>t. getSeqNum t \<le> m) ?txs))"
    using eff(3) by simp
  show "mBannedTransactions q' = mBannedTransactions q"
    using dropTransactions_ring [OF d] by simp
qed

subsection \<open>The ban ring along a sequence of calls\<close>

lemma canAdd_queue:
  assumes "canAdd lv tx q = Some (res, code, q1, it)"
  shows "q1 = q \<or> ban [tx] q = Some q1"
  using assms
  by (auto simp add: canAdd_def Let_def split: if_splits option.splits Located.splits)

lemma tryAdd_ring:
  assumes "tryAdd lv tx q = Some (res, code, q')"
  shows "mBannedTransactions q' = mBannedTransactions q
     \<or> (\<exists>F F' R. mBannedTransactions q = F # R \<and> mBannedTransactions q' = F' # R \<and> F \<subseteq> F')"
proof (cases "res = ADD_STATUS_PENDING")
  case True
  with tryAdd_pending_queue [of lv tx q code q'] assms show ?thesis by blast
next
  case False
  from assms obtain r c q1 it where c: "canAdd lv tx q = Some (r, c, q1, it)"
    by (auto simp add: tryAdd_def split: option.splits)
  with assms False have "q1 = q'"
    by (auto simp add: tryAdd_def Let_def split: if_splits option.splits)
  with canAdd_queue [OF c] consider "q' = q" | "ban [tx] q = Some q'" by blast
  then show ?thesis
  proof cases
    case 1
    then show ?thesis by simp
  next
    case 2
    from ban_ring [OF 2] show ?thesis by auto
  qed
qed

lemma removeApplied_ring:
  assumes "removeApplied appliedTxs q = Some q'"
  shows "mBannedTransactions q' = mBannedTransactions q"
proof -
  define P where "P s \<longleftrightarrow> mBannedTransactions s = mBannedTransactions q"
    for s :: TransactionQueue
  have "P q'"
  proof (rule forEach_invariant [where P = P, OF assms [unfolded removeApplied_def]])
    show "P q" by (simp add: P_def)
    fix kv s s'
    assume "P s" "removeAppliedAccount kv s = Some s'"
    with removeAppliedAccount_effect [of kv s s'] show "P s'" by (simp add: P_def)
  qed
  then show ?thesis by (simp add: P_def)
qed

lemma shiftCalls_other: "\<not> isShift c \<Longrightarrow> shiftCalls (c # cs) = shiftCalls cs"
  by (cases c) simp_all

lemma isShift_iff: "isShift c \<longleftrightarrow> c = Shift"
  by (cases c) simp_all

text \<open>What one call does to the ring: \<^verbatim>\<open>shift\<close> rotates it, the upgrade to version 13
  empties every slot, and any other call leaves it alone or adds to its front slot.\<close>

lemma call_ring:
  assumes "call c q = Some q'"
  shows "isShift c \<Longrightarrow> mBannedTransactions q \<noteq> []
           \<and> (\<exists>F. mBannedTransactions q' = F # butlast (mBannedTransactions q))"
    and "upgrades c q \<Longrightarrow>
           mBannedTransactions q' = map (\<lambda>banned. {}) (mBannedTransactions q)"
    and "\<not> isShift c \<Longrightarrow> \<not> upgrades c q \<Longrightarrow>
           mBannedTransactions q' = mBannedTransactions q
           \<or> (\<exists>F F' R. mBannedTransactions q = F # R \<and> mBannedTransactions q' = F' # R
                 \<and> F \<subseteq> F')"
proof -
  show "mBannedTransactions q \<noteq> []
           \<and> (\<exists>F. mBannedTransactions q' = F # butlast (mBannedTransactions q))"
    if "isShift c"
  proof -
    from that assms have s: "shift q = Some q'" by (simp add: isShift_iff)
    from shift_ring(1) [OF s] shift_length(2) [OF s] show ?thesis by blast
  qed
  show "mBannedTransactions q' = map (\<lambda>banned. {}) (mBannedTransactions q)"
    if "upgrades c q"
    using that assms by (cases c) (auto simp add: maybeVersionUpgraded_def)
  show "mBannedTransactions q' = mBannedTransactions q
           \<or> (\<exists>F F' R. mBannedTransactions q = F # R \<and> mBannedTransactions q' = F' # R
                 \<and> F \<subseteq> F')"
    if n: "\<not> isShift c" "\<not> upgrades c q"
  proof (cases c)
    case (TryAdd lv tx)
    with assms obtain res code where "tryAdd lv tx q = Some (res, code, q')" by auto
    then show ?thesis by (rule tryAdd_ring)
  next
    case (RemoveApplied appliedTxs)
    with assms removeApplied_ring [of appliedTxs q q'] show ?thesis by simp
  next
    case (Ban banTxs)
    with assms have "ban banTxs q = Some q'" by simp
    from ban_ring [OF this] show ?thesis by auto
  next
    case Shift
    with n show ?thesis by simp
  next
    case (MaybeVersionUpgraded v conv)
    with assms n show ?thesis by (auto simp add: maybeVersionUpgraded_def)
  qed
qed

lemma call_ring_length:
  assumes "call c q = Some q'"
  shows "length (mBannedTransactions q') = length (mBannedTransactions q)"
proof (cases "isShift c")
  case True
  from call_ring(1) [OF assms True] show ?thesis by auto
next
  case False
  show ?thesis
  proof (cases "upgrades c q")
    case True
    from call_ring(2) [OF assms True] show ?thesis by simp
  next
    case u: False
    from call_ring(3) [OF assms False u] show ?thesis by auto
  qed
qed

text \<open>A hash in slot \<open>j\<close> moves one slot back with every \<^verbatim>\<open>shift\<close> and stays where it is
  otherwise, as long as the ring is not cleared.\<close>

lemma calls_keep_ban:
  assumes "calls cs q = Some q'" "\<not> clears cs q"
    and "j + shiftCalls cs < length (mBannedTransactions q)"
    and "h \<in> mBannedTransactions q ! j"
  shows "length (mBannedTransactions q') = length (mBannedTransactions q)
     \<and> h \<in> mBannedTransactions q' ! (j + shiftCalls cs)"
  using assms
proof (induction cs arbitrary: q j)
  case Nil
  then show ?case by (simp add: calls_def)
next
  case (Cons c cs)
  from Cons.prems(1) obtain q1 where c: "call c q = Some q1" and r: "calls cs q1 = Some q'"
    by (auto simp add: calls_def split: option.splits)
  from Cons.prems(2) c have nu: "\<not> upgrades c q" and nc: "\<not> clears cs q1" by simp_all
  note len = call_ring_length [OF c]
  show ?case
  proof (cases "isShift c")
    case True
    then have sc: "shiftCalls (c # cs) = Suc (shiftCalls cs)" by (simp add: isShift_iff)
    from call_ring(1) [OF c True] obtain F where
      f: "mBannedTransactions q1 = F # butlast (mBannedTransactions q)" by blast
    from Cons.prems(3) sc have j: "j < length (mBannedTransactions q) - 1" by simp
    have "mBannedTransactions q1 ! Suc j = mBannedTransactions q ! j"
      using f j by (simp add: nth_butlast)
    with Cons.prems(4) have h1: "h \<in> mBannedTransactions q1 ! Suc j" by simp
    from Cons.prems(3) sc len have "Suc j + shiftCalls cs < length (mBannedTransactions q1)"
      by simp
    from Cons.IH [OF r nc this h1] len sc show ?thesis by simp
  next
    case False
    then have sc: "shiftCalls (c # cs) = shiftCalls cs" by (rule shiftCalls_other)
    from Cons.prems(3) have jl: "j < length (mBannedTransactions q)" by simp
    have h1: "h \<in> mBannedTransactions q1 ! j"
    proof -
      from call_ring(3) [OF c False nu]
      consider "mBannedTransactions q1 = mBannedTransactions q"
        | F F' R where "mBannedTransactions q = F # R" "mBannedTransactions q1 = F' # R" "F \<subseteq> F'"
        by blast
      then show ?thesis
      proof cases
        case 1
        with Cons.prems(4) show ?thesis by simp
      next
        case 2
        with Cons.prems(4) show ?thesis by (cases j) auto
      qed
    qed
    from Cons.prems(3) sc len have "j + shiftCalls cs < length (mBannedTransactions q1)" by simp
    from Cons.IH [OF r nc this h1] len sc show ?thesis by simp
  qed
qed

text \<open>A hash that is in none of the first \<open>m\<close> slots is in none of the first \<open>m + 1\<close>
  after a \<^verbatim>\<open>shift\<close>, as long as no call puts it into the front slot.\<close>

lemma calls_expire:
  assumes "calls cs q = Some q'" "\<not> reinserts h cs q"
    and "\<forall>i < length (mBannedTransactions q). i < m \<longrightarrow> h \<notin> mBannedTransactions q ! i"
  shows "length (mBannedTransactions q') = length (mBannedTransactions q)
     \<and> (\<forall>i < length (mBannedTransactions q).
           i < m + shiftCalls cs \<longrightarrow> h \<notin> mBannedTransactions q' ! i)"
  using assms
proof (induction cs arbitrary: q m)
  case Nil
  then show ?case by (simp add: calls_def)
next
  case (Cons c cs)
  from Cons.prems(1) obtain q1 where c: "call c q = Some q1" and r: "calls cs q1 = Some q'"
    by (auto simp add: calls_def split: option.splits)
  from Cons.prems(2) c have
    nf: "\<not> (h \<in> bannedFront q1 \<and> (isShift c \<or> h \<notin> bannedFront q))"
    and nr: "\<not> reinserts h cs q1" by simp_all
  note len = call_ring_length [OF c]
  show ?case
  proof (cases "isShift c")
    case True
    then have sc: "shiftCalls (c # cs) = Suc (shiftCalls cs)" by (simp add: isShift_iff)
    from call_ring(1) [OF c True] obtain F where
      f: "mBannedTransactions q1 = F # butlast (mBannedTransactions q)" by blast
    from nf True f have hF: "h \<notin> F" by (simp add: bannedFront_def)
    have inv1: "\<forall>i < length (mBannedTransactions q1). i < Suc m \<longrightarrow>
        h \<notin> mBannedTransactions q1 ! i"
    proof (intro allI impI)
      fix i assume i: "i < length (mBannedTransactions q1)" "i < Suc m"
      show "h \<notin> mBannedTransactions q1 ! i"
      proof (cases i)
        case 0
        with f hF show ?thesis by simp
      next
        case (Suc i')
        with i f have i': "i' < length (mBannedTransactions q) - 1" "i' < m" by simp_all
        then have "mBannedTransactions q1 ! i = mBannedTransactions q ! i'"
          using f Suc by (simp add: nth_butlast)
        moreover from i' Cons.prems(3) have "h \<notin> mBannedTransactions q ! i'" by simp
        ultimately show ?thesis by simp
      qed
    qed
    from Cons.IH [OF r nr inv1] len sc show ?thesis by simp
  next
    case False
    then have sc: "shiftCalls (c # cs) = shiftCalls cs" by (rule shiftCalls_other)
    have inv1: "\<forall>i < length (mBannedTransactions q1). i < m \<longrightarrow>
        h \<notin> mBannedTransactions q1 ! i"
    proof (cases "upgrades c q")
      case True
      from call_ring(2) [OF c True] show ?thesis by simp
    next
      case u: False
      from call_ring(3) [OF c False u]
      consider "mBannedTransactions q1 = mBannedTransactions q"
        | F F' R where "mBannedTransactions q = F # R" "mBannedTransactions q1 = F' # R" "F \<subseteq> F'"
        by blast
      then show ?thesis
      proof cases
        case 1
        with Cons.prems(3) show ?thesis by simp
      next
        case 2
        show ?thesis
        proof (intro allI impI)
          fix i assume i: "i < length (mBannedTransactions q1)" "i < m"
          show "h \<notin> mBannedTransactions q1 ! i"
          proof (cases i)
            case 0
            with i Cons.prems(3) 2 have "h \<notin> F" by auto
            with nf False 2 have "h \<notin> F'" by (simp add: bannedFront_def)
            with 0 2 show ?thesis by simp
          next
            case (Suc i')
            with i Cons.prems(3) 2 show ?thesis by auto
          qed
        qed
      qed
    qed
    from Cons.IH [OF r nr inv1] len sc show ?thesis by simp
  qed
qed

subsection \<open>C1: the replace-by-fee rule\<close>

text \<open>The replacement goes through when the later phases pass and the fee of the
  replaced transaction is reserved on its fee source (invariant 3).\<close>

lemma tryAdd_replace:
  assumes c: "canAdd lv tx q = Some (ADD_STATUS_PENDING, code, q, i)"
    and st: "map_of (mAccountStates q) (getSourceID tx) = Some st"
    and i: "i < length (mTransactions st)"
    and sf: "map_of (mAccountStates q) (getFeeSourceID (mTransactions st ! i)) = Some sf"
            "getFeeBid (mTransactions st ! i) \<le> mTotalFees sf"
  shows "\<exists>q'. tryAdd lv tx q = Some (ADD_STATUS_PENDING, code, q')"
proof -
  let ?k = "getSourceID tx"
  let ?old = "mTransactions st ! i"
  have "\<exists>q2. releaseFeeMaybeEraseAccountState ?old q = Some q2"
    using sf
    by (cases "mTransactions sf = [] \<and> mTotalFees sf = getFeeBid ?old")
      (simp_all add: releaseFeeMaybeEraseAccountState_def Let_def)
  then obtain q2 where r: "releaseFeeMaybeEraseAccountState ?old q = Some q2" by blast
  have ne: "mTransactions st \<noteq> []" using i by auto
  from release_nonempty [OF r st ne] obtain st2 where
    e2: "map_of (mAccountStates q2) ?k = Some st2" by auto
  define q3 where "q3 = q2\<lparr>mAccountStates :=
      AList.update ?k
        (st2\<lparr>mQueueSizeOps := u64 (mQueueSizeOps st2 - int (getNumOperations ?old)),
              mTransactions := (mTransactions st2)[i := tx]\<rparr>)
        (mAccountStates q2),
      mQueueSizeOps_q := u64 (mQueueSizeOps_q q2 - int (getNumOperations ?old))\<rparr>"
  have a: "(if i \<noteq> length (mTransactions st) then tryAddReplace ?k i tx q
            else tryAddAppend ?k tx q) = Some q3"
    using i st r e2 by (simp add: tryAddReplace_def Let_def q3_def)
  have "map_of (mAccountStates q3) ?k \<noteq> None" by (simp add: q3_def update_conv')
  then obtain q4 where n: "tryAddCount ?k tx q3 = Some q4"
    by (auto simp add: tryAddCount_def Let_def)
  have "tryAdd lv tx q = Some (ADD_STATUS_PENDING, code, q4)"
    unfolding tryAdd_def
    by (simp only: c option.case prod.case Let_def st a n simp_thms if_True if_False
        option.distinct)
  then show ?thesis by blast
qed

text \<open>
  Claim C1 says that the fee rule decides the replacement for every candidate at the
  sequence number of a queued transaction. Three checks of \<^verbatim>\<open>canAdd\<close> come before the
  rule and answer otherwise:
  \<^item> a banned fee bump that fails the rule gets \<^verbatim>\<open>ADD_STATUS_TRY_AGAIN_LATER\<close> and no
    code (lines 111--114);
  \<^item> a fee bump that is a duplicate of the queued transaction fails the rule (its fee
    is that of the queued one) and gets \<^verbatim>\<open>ADD_STATUS_DUPLICATE\<close> (lines 150--154);
  \<^item> a plain transaction never replaces (line 126): one that satisfies the rule goes
    to the validator with the last queued sequence number, which here refuses it, and
    the queue is as before.
\<close>

theorem replace_by_fee_rule_counterexample:
  "getSeqNum (feeBumpTx 77 11 1 2 5 1 999) = getSeqNum tx5
   \<and> \<not> canReplaceByFee (feeBumpTx 77 11 1 2 5 1 999) tx5
   \<and> tryAdd ledger0 (feeBumpTx 77 11 1 2 5 1 999) queueB
       = Some (ADD_STATUS_TRY_AGAIN_LATER, None, queueB)
   \<and> \<not> canReplaceByFee bump5 bump5
   \<and> tryAdd ledger0 bump5 queueBump = Some (ADD_STATUS_DUPLICATE, None, queueBump)
   \<and> getSeqNum (plainTx 13 1 1 5 1 5000) = getSeqNum tx5
   \<and> canReplaceByFee (plainTx 13 1 1 5 1 5000) tx5
   \<and> tryAdd ledger0 (plainTx 13 1 1 5 1 5000) queue1
       = Some (ADD_STATUS_ERROR, Some txBAD_SEQ, queue1)"
  by (simp add: tryAdd_def canAdd_def canAddLocate_def findBySeq_def isBanned_def
      isDuplicateTx_def canReplaceByFee_def bigMultiply_def FEE_MULTIPLIER_def u64_def u128_def
      maxQueueSizeOps_def int64_succ_def INT64_MAX_def INT64_MIN_def Let_def ledger0_def
      queueB_def queueBump_def queue1_def queueOf_def stateOf_def tx5_def bump5_def
      plainTx_def feeBumpTx_def)

text \<open>
  Claim C1, amended. Let \<open>tx\<close> be a fee-bump envelope that is not banned, whose sequence
  number is that of the queued transaction \<open>oldTx\<close> (slot \<open>i\<close> of the contiguous queue
  of its source account, whose last sequence number is below \<^verbatim>\<open>INT64_MAX\<close>) and that is
  not a duplicate of \<open>oldTx\<close>. Fees are non-negative \<^verbatim>\<open>int64_t\<close> values and operation
  counts are \<^verbatim>\<open>uint32_t\<close> values. Then
  \<^item> \<^verbatim>\<open>canReplaceByFee\<close> holds exactly when
    \<open>fee_bid(tx) * max(1, num_ops(old)) \<ge> 10 * fee_bid(old) * max(1, num_ops(tx))\<close> over
    the integers: both 128-bit products are the exact products and ten times the
    second stays below \<open>2^128\<close>;
  \<^item> when the inequality holds the admission goes on with \<open>oldTxIter\<close> at slot \<open>i\<close> and
    with the fee and the operation count net of those of \<open>oldTx\<close>; every
    \<^verbatim>\<open>ADD_STATUS_PENDING\<close> result leaves \<open>tx\<close> in slot \<open>i\<close> in place of \<open>oldTx\<close>, and that
    is the result when the capacity check, the validator and the reservation check
    pass and the fee of \<open>oldTx\<close> is reserved on its fee source;
  \<^item> when it fails \<^verbatim>\<open>tryAdd\<close> returns \<^verbatim>\<open>ADD_STATUS_ERROR\<close> with the code
    \<^verbatim>\<open>txINSUFFICIENT_FEE\<close> and the queue, hence the queued \<open>oldTx\<close>, is unchanged.
\<close>

theorem replace_by_fee_rule:
  assumes "0 \<le> getFeeBid tx" "getFeeBid tx < 2 ^ 63" "getNumOperations tx < 2 ^ 32"
    and "0 \<le> getFeeBid oldTx" "getFeeBid oldTx < 2 ^ 63" "getNumOperations oldTx < 2 ^ 32"
    and "\<not> isBanned q (getFullHash tx)"
    and "getEnvelopeType tx = ENVELOPE_TYPE_TX_FEE_BUMP"
    and "map_of (mAccountStates q) (getSourceID tx) = Some st"
    and "contiguous (mTransactions st)"
    and "i < length (mTransactions st)" "mTransactions st ! i = oldTx"
    and "getSeqNum oldTx = getSeqNum tx"
    and "\<not> isDuplicateTx oldTx tx"
    and "getSeqNum (last (mTransactions st)) < INT64_MAX"
  shows "(canReplaceByFee tx oldTx \<longleftrightarrow>
            getFeeBid tx * int (max 1 (getNumOperations oldTx))
              \<ge> 10 * getFeeBid oldTx * int (max 1 (getNumOperations tx)))
       \<and> bigMultiply (getFeeBid tx) (int (max 1 (getNumOperations oldTx)))
           = getFeeBid tx * int (max 1 (getNumOperations oldTx))
       \<and> bigMultiply (getFeeBid oldTx) (int (max 1 (getNumOperations tx)))
           = getFeeBid oldTx * int (max 1 (getNumOperations tx))
       \<and> FEE_MULTIPLIER * bigMultiply (getFeeBid oldTx) (int (max 1 (getNumOperations tx)))
           < 2 ^ 128
       \<and> (getFeeBid tx * int (max 1 (getNumOperations oldTx))
              \<ge> 10 * getFeeBid oldTx * int (max 1 (getNumOperations tx)) \<longrightarrow>
            canAddLocate tx q =
              Some (Proceed
                (if getFeeSourceID oldTx = getFeeSourceID tx
                 then getFeeBid tx - getFeeBid oldTx else getFeeBid tx)
                (int (getNumOperations tx) - int (getNumOperations oldTx))
                (getSeqNum tx - 1) i)
            \<and> (\<forall>code q'. tryAdd lv tx q = Some (ADD_STATUS_PENDING, code, q') \<longrightarrow>
                 (\<exists>st'. map_of (mAccountStates q') (getSourceID tx) = Some st'
                    \<and> mTransactions st' = (mTransactions st)[i := tx]))
            \<and> (\<not> u64 (int (getNumOperations tx) - int (getNumOperations oldTx)
                        + mQueueSizeOps_q q) > maxQueueSizeOps lv q
                \<and> fst (checkValid lv tx (getSeqNum tx - 1))
                \<and> \<not> getAvailableBalance lv (getFeeSourceID tx)
                       - (if getFeeSourceID oldTx = getFeeSourceID tx
                          then getFeeBid tx - getFeeBid oldTx else getFeeBid tx)
                     < (case map_of (mAccountStates q) (getFeeSourceID tx) of
                          None \<Rightarrow> 0 | Some feeState \<Rightarrow> mTotalFees feeState)
                \<and> (\<exists>sf. map_of (mAccountStates q) (getFeeSourceID oldTx) = Some sf
                       \<and> getFeeBid oldTx \<le> mTotalFees sf) \<longrightarrow>
                (\<exists>q' st'. tryAdd lv tx q
                      = Some (ADD_STATUS_PENDING,
                              Some (snd (checkValid lv tx (getSeqNum tx - 1))), q')
                   \<and> map_of (mAccountStates q') (getSourceID tx) = Some st'
                   \<and> mTransactions st' = (mTransactions st)[i := tx])))
       \<and> (\<not> getFeeBid tx * int (max 1 (getNumOperations oldTx))
              \<ge> 10 * getFeeBid oldTx * int (max 1 (getNumOperations tx)) \<longrightarrow>
            tryAdd lv tx q = Some (ADD_STATUS_ERROR, Some txINSUFFICIENT_FEE, q))"
proof -
  have m1: "max 1 (getNumOperations oldTx) < 2 ^ 32" using assms(6) by simp
  have m2: "max 1 (getNumOperations tx) < 2 ^ 32" using assms(3) by simp
  note rule = canReplaceByFee_exact [OF assms(1-6)]
  have slot: "getSeqNum (mTransactions st ! i) = getSeqNum tx" using assms(12,13) by simp
  note loc = canAddLocate_feebump_slot [OF assms(8,9,10,11) slot assms(15),
      unfolded assms(12) Let_def]
  let ?netFee = "if getFeeSourceID oldTx = getFeeSourceID tx
                 then getFeeBid tx - getFeeBid oldTx else getFeeBid tx"
  let ?netOps = "int (getNumOperations tx) - int (getNumOperations oldTx)"
  have ok: "canAddLocate tx q = Some (Proceed ?netFee ?netOps (getSeqNum tx - 1) i)"
    if "canReplaceByFee tx oldTx"
    using loc assms(14) that by (simp only: if_False if_True simp_thms)
  have pend: "\<exists>st'. map_of (mAccountStates q') (getSourceID tx) = Some st'
                    \<and> mTransactions st' = (mTransactions st)[i := tx]"
    if r: "canReplaceByFee tx oldTx" and t: "tryAdd lv tx q = Some (ADD_STATUS_PENDING, code, q')"
    for code q'
  proof -
    from tryAdd_pending_queue [OF t] obtain netFee netOps seqNum oldTxIter st' where
      l: "canAddLocate tx q = Some (Proceed netFee netOps seqNum oldTxIter)"
      and e: "map_of (mAccountStates q') (getSourceID tx) = Some st'"
      and x: "mTransactions st' =
          (case map_of (mAccountStates q) (getSourceID tx) of
             None \<Rightarrow> [tx]
           | Some st \<Rightarrow> if oldTxIter < length (mTransactions st)
                        then (mTransactions st)[oldTxIter := tx]
                        else mTransactions st @ [tx])"
      by (elim exE conjE) (rule that, assumption+)
    from l ok [OF r] have "oldTxIter = i" by simp
    with x assms(9,11) have "mTransactions st' = (mTransactions st)[i := tx]" by simp
    with e show ?thesis by blast
  qed
  have go: "\<exists>q' st'. tryAdd lv tx q
                      = Some (ADD_STATUS_PENDING,
                              Some (snd (checkValid lv tx (getSeqNum tx - 1))), q')
                   \<and> map_of (mAccountStates q') (getSourceID tx) = Some st'
                   \<and> mTransactions st' = (mTransactions st)[i := tx]"
    if r: "canReplaceByFee tx oldTx"
      and cap: "\<not> u64 (?netOps + mQueueSizeOps_q q) > maxQueueSizeOps lv q"
      and v: "fst (checkValid lv tx (getSeqNum tx - 1))"
      and bal: "\<not> getAvailableBalance lv (getFeeSourceID tx) - ?netFee
                   < (case map_of (mAccountStates q) (getFeeSourceID tx) of
                        None \<Rightarrow> 0 | Some feeState \<Rightarrow> mTotalFees feeState)"
      and sf: "\<exists>sf. map_of (mAccountStates q) (getFeeSourceID oldTx) = Some sf
                       \<and> getFeeBid oldTx \<le> mTotalFees sf"
  proof -
    from canAdd_proceed [OF assms(7) ok [OF r], of lv] cap v bal
    have c: "canAdd lv tx q
        = Some (ADD_STATUS_PENDING, Some (snd (checkValid lv tx (getSeqNum tx - 1))), q, i)"
      by (simp only: if_False if_True simp_thms)
    from sf obtain sf' where
      "map_of (mAccountStates q) (getFeeSourceID (mTransactions st ! i)) = Some sf'"
      "getFeeBid (mTransactions st ! i) \<le> mTotalFees sf'"
      unfolding assms(12) by blast
    from tryAdd_replace [OF c assms(9,11) this] obtain q' where
      t: "tryAdd lv tx q
        = Some (ADD_STATUS_PENDING, Some (snd (checkValid lv tx (getSeqNum tx - 1))), q')"
      by blast
    from pend [OF r t] t show ?thesis by blast
  qed
  have "\<not> canReplaceByFee tx oldTx \<Longrightarrow>
      canAddLocate tx q = Some (Rejected ADD_STATUS_ERROR (Some txINSUFFICIENT_FEE))"
    using loc assms(14) by simp
  then have bad: "\<not> canReplaceByFee tx oldTx \<Longrightarrow>
      tryAdd lv tx q = Some (ADD_STATUS_ERROR, Some txINSUFFICIENT_FEE, q)"
    using tryAdd_rejected [OF assms(7)] by simp
  note b1 = bigMultiply_exact [OF assms(1,2) m1]
  note b2 = bigMultiply_exact [OF assms(4,5) m2]
  note b3 = fee_multiple_bound(2) [OF assms(4,5) m2]
  show ?thesis
  proof (intro conjI impI allI)
    show "canReplaceByFee tx oldTx \<longleftrightarrow>
            getFeeBid tx * int (max 1 (getNumOperations oldTx))
              \<ge> 10 * getFeeBid oldTx * int (max 1 (getNumOperations tx))"
      by (rule rule)
    show "bigMultiply (getFeeBid tx) (int (max 1 (getNumOperations oldTx)))
           = getFeeBid tx * int (max 1 (getNumOperations oldTx))" by (rule b1)
    show "bigMultiply (getFeeBid oldTx) (int (max 1 (getNumOperations tx)))
           = getFeeBid oldTx * int (max 1 (getNumOperations tx))" by (rule b2)
    show "FEE_MULTIPLIER * bigMultiply (getFeeBid oldTx) (int (max 1 (getNumOperations tx)))
           < 2 ^ 128" by (rule b3)
  next
    assume "getFeeBid tx * int (max 1 (getNumOperations oldTx))
              \<ge> 10 * getFeeBid oldTx * int (max 1 (getNumOperations tx))"
    with rule have r: "canReplaceByFee tx oldTx" by simp
    show "canAddLocate tx q = Some (Proceed ?netFee ?netOps (getSeqNum tx - 1) i)"
      by (rule ok [OF r])
    show "\<exists>st'. map_of (mAccountStates q') (getSourceID tx) = Some st'
                    \<and> mTransactions st' = (mTransactions st)[i := tx]"
      if "tryAdd lv tx q = Some (ADD_STATUS_PENDING, code, q')" for code q'
      by (rule pend [OF r that])
    show "\<exists>q' st'. tryAdd lv tx q
                      = Some (ADD_STATUS_PENDING,
                              Some (snd (checkValid lv tx (getSeqNum tx - 1))), q')
                   \<and> map_of (mAccountStates q') (getSourceID tx) = Some st'
                   \<and> mTransactions st' = (mTransactions st)[i := tx]"
      if "\<not> u64 (?netOps + mQueueSizeOps_q q) > maxQueueSizeOps lv q
                \<and> fst (checkValid lv tx (getSeqNum tx - 1))
                \<and> \<not> getAvailableBalance lv (getFeeSourceID tx) - ?netFee
                     < (case map_of (mAccountStates q) (getFeeSourceID tx) of
                          None \<Rightarrow> 0 | Some feeState \<Rightarrow> mTotalFees feeState)
                \<and> (\<exists>sf. map_of (mAccountStates q) (getFeeSourceID oldTx) = Some sf
                       \<and> getFeeBid oldTx \<le> mTotalFees sf)"
      using go [OF r] that by blast
  next
    assume "\<not> getFeeBid tx * int (max 1 (getNumOperations oldTx))
              \<ge> 10 * getFeeBid oldTx * int (max 1 (getNumOperations tx))"
    with rule have "\<not> canReplaceByFee tx oldTx" by simp
    then show "tryAdd lv tx q = Some (ADD_STATUS_ERROR, Some txINSUFFICIENT_FEE, q)"
      by (rule bad)
  qed
qed

text \<open>Scenario 4 of the spec: a fee bump over the queued transaction that offers 999 for
  one operation against 100 is refused, and the queue is as before; one that offers 1000
  takes its place.\<close>

theorem replace_by_fee_rule_witness:
  "\<not> isBanned queue1 (getFullHash (feeBumpTx 12 11 1 2 5 1 999))
   \<and> \<not> isDuplicateTx tx5 (feeBumpTx 12 11 1 2 5 1 999)
   \<and> getSeqNum (last [tx5]) < INT64_MAX
   \<and> \<not> canReplaceByFee (feeBumpTx 12 11 1 2 5 1 999) tx5
   \<and> tryAdd ledger0 (feeBumpTx 12 11 1 2 5 1 999) queue1
       = Some (ADD_STATUS_ERROR, Some txINSUFFICIENT_FEE, queue1)
   \<and> canReplaceByFee (feeBumpTx 14 11 1 2 5 1 1000) tx5
   \<and> (\<exists>q' st'. tryAdd ledger0 (feeBumpTx 14 11 1 2 5 1 1000) queue1
          = Some (ADD_STATUS_PENDING, Some (txValidatorCode 0), q')
        \<and> map_of (mAccountStates q') 1 = Some st'
        \<and> mTransactions st' = [feeBumpTx 14 11 1 2 5 1 1000])"
proof -
  have a: "\<not> isBanned queue1 (getFullHash (feeBumpTx 12 11 1 2 5 1 999))
   \<and> \<not> isDuplicateTx tx5 (feeBumpTx 12 11 1 2 5 1 999)
   \<and> getSeqNum (last [tx5]) < INT64_MAX
   \<and> \<not> canReplaceByFee (feeBumpTx 12 11 1 2 5 1 999) tx5
   \<and> tryAdd ledger0 (feeBumpTx 12 11 1 2 5 1 999) queue1
       = Some (ADD_STATUS_ERROR, Some txINSUFFICIENT_FEE, queue1)"
    using replace_by_fee_rule [of "feeBumpTx 12 11 1 2 5 1 999" tx5 queue1
        "stateOf 100 1 0 [tx5]" 0 ledger0]
    by (simp add: feeBumpTx_def tx5_def plainTx_def queue1_def queueOf_def stateOf_def
        isBanned_def isDuplicateTx_def INT64_MAX_def)
  have b: "canReplaceByFee (feeBumpTx 14 11 1 2 5 1 1000) tx5
   \<and> (\<exists>q' st'. tryAdd ledger0 (feeBumpTx 14 11 1 2 5 1 1000) queue1
          = Some (ADD_STATUS_PENDING, Some (txValidatorCode 0), q')
        \<and> map_of (mAccountStates q') 1 = Some st'
        \<and> mTransactions st' = [feeBumpTx 14 11 1 2 5 1 1000])"
    using replace_by_fee_rule [of "feeBumpTx 14 11 1 2 5 1 1000" tx5 queue1
        "stateOf 100 1 0 [tx5]" 0 ledger0]
    by (simp add: feeBumpTx_def tx5_def plainTx_def queue1_def queueOf_def stateOf_def
        isBanned_def isDuplicateTx_def INT64_MAX_def ledger0_def u64_def maxQueueSizeOps_def)
  from a b show ?thesis by simp
qed

subsection \<open>C10: equality of account summaries\<close>

text \<open>
  Claim C10. \<^verbatim>\<open>operator==\<close> on two \<^verbatim>\<open>AccountTxQueueInfo\<close> values compares the maximal
  sequence number, the total fees and the operation count and nothing else: two
  summaries that differ only in the age are equal.
\<close>

theorem info_eq_ignores_age:
  "AccountTxQueueInfo_eq x y
     = (mMaxSeq x = mMaxSeq y \<and> mTotalFees_i x = mTotalFees_i y
        \<and> mQueueSizeOps_i x = mQueueSizeOps_i y)
   \<and> AccountTxQueueInfo_eq (x\<lparr>mAge_i := a\<rparr>) (x\<lparr>mAge_i := b\<rparr>)"
  by (simp add: AccountTxQueueInfo_eq_def)

subsection \<open>C2: a fee bump at the next sequence number\<close>

text \<open>
  Claim C2. Let \<open>tx\<close> be a fee-bump envelope whose source account has a non-empty
  (contiguous) queue and whose sequence number is that of the last queued transaction
  plus one; like every \<^verbatim>\<open>int64_t\<close>, it is at most \<^verbatim>\<open>INT64_MAX\<close>. Then \<^verbatim>\<open>findBySeq\<close> succeeds with the end iterator: no slot is replaced, and
  the admission goes on as for an append, with the full fee and operation count and with
  \<open>seqNum = getSeqNum tx - 1\<close>. That \<open>seqNum\<close> is what the validator is asked about (its
  verdict and code at \<open>getSeqNum tx - 1\<close> decide the result once the ban and capacity
  checks are passed), and whenever \<^verbatim>\<open>tryAdd\<close> returns \<^verbatim>\<open>ADD_STATUS_PENDING\<close> the queue of
  the source account is the old one with \<open>tx\<close> appended at the tail.
\<close>

theorem feebump_next_seq_appends:
  assumes "getEnvelopeType tx = ENVELOPE_TYPE_TX_FEE_BUMP"
    and "map_of (mAccountStates q) (getSourceID tx) = Some st"
    and "mTransactions st \<noteq> []" "contiguous (mTransactions st)"
    and "getSeqNum tx = getSeqNum (last (mTransactions st)) + 1"
    and "getSeqNum tx \<le> INT64_MAX"
  shows "findBySeq (getSeqNum tx) (mTransactions st) (length (mTransactions st))
           = Some (True, length (mTransactions st))
       \<and> canAddLocate tx q
           = Some (Proceed (getFeeBid tx) (int (getNumOperations tx)) (getSeqNum tx - 1)
                     (length (mTransactions st)))
       \<and> (\<not> isBanned q (getFullHash tx)
           \<and> \<not> u64 (int (getNumOperations tx) + mQueueSizeOps_q q) > maxQueueSizeOps lv q
           \<and> \<not> fst (checkValid lv tx (getSeqNum tx - 1)) \<longrightarrow>
            tryAdd lv tx q
              = Some (ADD_STATUS_ERROR, Some (snd (checkValid lv tx (getSeqNum tx - 1))), q))
       \<and> (\<not> isBanned q (getFullHash tx)
           \<and> \<not> u64 (int (getNumOperations tx) + mQueueSizeOps_q q) > maxQueueSizeOps lv q
           \<and> fst (checkValid lv tx (getSeqNum tx - 1))
           \<and> \<not> getAvailableBalance lv (getFeeSourceID tx) - getFeeBid tx
                 < (case map_of (mAccountStates q) (getFeeSourceID tx) of
                      None \<Rightarrow> 0 | Some feeState \<Rightarrow> mTotalFees feeState) \<longrightarrow>
            (\<exists>q' st'. tryAdd lv tx q
                  = Some (ADD_STATUS_PENDING, Some (snd (checkValid lv tx (getSeqNum tx - 1))), q')
               \<and> map_of (mAccountStates q') (getSourceID tx) = Some st'
               \<and> mTransactions st' = mTransactions st @ [tx]))
       \<and> (\<forall>code q'. tryAdd lv tx q = Some (ADD_STATUS_PENDING, code, q') \<longrightarrow>
            fst (checkValid lv tx (getSeqNum tx - 1))
            \<and> (\<exists>st'. map_of (mAccountStates q') (getSourceID tx) = Some st'
                  \<and> mTransactions st' = mTransactions st @ [tx]))"
proof -
  have b: "getSeqNum (last (mTransactions st)) < INT64_MAX" using assms(5,6) by simp
  have f: "findBySeq (getSeqNum tx) (mTransactions st) (length (mTransactions st))
           = Some (True, length (mTransactions st))"
    unfolding findBySeq_contiguous [OF assms(4,3) b]
    using contiguous_last [OF assms(4,3)] assms(5) by simp
  have l: "canAddLocate tx q
           = Some (Proceed (getFeeBid tx) (int (getNumOperations tx)) (getSeqNum tx - 1)
                     (length (mTransactions st)))"
    using assms(1,2,3) f by (simp add: canAddLocate_def Let_def)
  note ca = canAdd_proceed [OF _ l, of lv]
  have e: "\<not> isBanned q (getFullHash tx) \<Longrightarrow>
           \<not> u64 (int (getNumOperations tx) + mQueueSizeOps_q q) > maxQueueSizeOps lv q \<Longrightarrow>
           \<not> fst (checkValid lv tx (getSeqNum tx - 1)) \<Longrightarrow>
            tryAdd lv tx q
              = Some (ADD_STATUS_ERROR, Some (snd (checkValid lv tx (getSeqNum tx - 1))), q)"
    using ca by (intro tryAdd_not_pending [where oldTxIter = "length (mTransactions st)"]) auto
  have p: "\<not> isBanned q (getFullHash tx) \<Longrightarrow>
           \<not> u64 (int (getNumOperations tx) + mQueueSizeOps_q q) > maxQueueSizeOps lv q \<Longrightarrow>
           fst (checkValid lv tx (getSeqNum tx - 1)) \<Longrightarrow>
           \<not> getAvailableBalance lv (getFeeSourceID tx) - getFeeBid tx
                 < (case map_of (mAccountStates q) (getFeeSourceID tx) of
                      None \<Rightarrow> 0 | Some feeState \<Rightarrow> mTotalFees feeState) \<Longrightarrow>
            (\<exists>q' st'. tryAdd lv tx q
                  = Some (ADD_STATUS_PENDING, Some (snd (checkValid lv tx (getSeqNum tx - 1))), q')
               \<and> map_of (mAccountStates q') (getSourceID tx) = Some st'
               \<and> mTransactions st' = mTransactions st @ [tx])"
  proof -
    assume "\<not> isBanned q (getFullHash tx)"
      "\<not> u64 (int (getNumOperations tx) + mQueueSizeOps_q q) > maxQueueSizeOps lv q"
      "fst (checkValid lv tx (getSeqNum tx - 1))"
      "\<not> getAvailableBalance lv (getFeeSourceID tx) - getFeeBid tx
                 < (case map_of (mAccountStates q) (getFeeSourceID tx) of
                      None \<Rightarrow> 0 | Some feeState \<Rightarrow> mTotalFees feeState)"
    with ca have "canAdd lv tx q
      = Some (ADD_STATUS_PENDING, Some (snd (checkValid lv tx (getSeqNum tx - 1))), q,
              length (mTransactions st))" by simp
    from tryAdd_append [OF this assms(2)] show ?thesis by blast
  qed
  have s: "fst (checkValid lv tx (getSeqNum tx - 1))
            \<and> (\<exists>st'. map_of (mAccountStates q') (getSourceID tx) = Some st'
                  \<and> mTransactions st' = mTransactions st @ [tx])"
    if t: "tryAdd lv tx q = Some (ADD_STATUS_PENDING, code, q')" for code q'
  proof -
    from t obtain c q1 it where c: "canAdd lv tx q = Some (ADD_STATUS_PENDING, c, q1, it)"
      by (auto simp add: tryAdd_def split: option.splits if_splits)
    then have nb: "\<not> isBanned q (getFullHash tx)"
      by (auto simp add: canAdd_def split: if_splits)
    from c ca [OF nb] have v: "fst (checkValid lv tx (getSeqNum tx - 1))"
      and c': "canAdd lv tx q
        = Some (ADD_STATUS_PENDING, c, q, length (mTransactions st))"
      by (auto split: if_splits option.splits)
    from tryAdd_append [OF c' assms(2)] t v show ?thesis by auto
  qed
  show ?thesis using f l e p s by blast
qed

text \<open>A fee bump with sequence number 6 behind the queued transaction 5.\<close>

theorem feebump_next_seq_appends_witness:
  "contiguous [tx5]
   \<and> getSeqNum (feeBumpTx 15 16 1 2 6 1 200) = getSeqNum (last [tx5]) + 1
   \<and> getSeqNum (feeBumpTx 15 16 1 2 6 1 200) \<le> INT64_MAX
   \<and> canAddLocate (feeBumpTx 15 16 1 2 6 1 200) queue1 = Some (Proceed 200 1 5 1)
   \<and> fst (checkValid ledger0 (feeBumpTx 15 16 1 2 6 1 200) 5)
   \<and> (\<exists>q' st'. tryAdd ledger0 (feeBumpTx 15 16 1 2 6 1 200) queue1
          = Some (ADD_STATUS_PENDING, Some (txValidatorCode 0), q')
        \<and> map_of (mAccountStates q') 1 = Some st'
        \<and> mTransactions st' = [tx5, feeBumpTx 15 16 1 2 6 1 200])"
  using feebump_next_seq_appends [of "feeBumpTx 15 16 1 2 6 1 200" queue1
      "stateOf 100 1 0 [tx5]" ledger0]
  by (simp add: feeBumpTx_def tx5_def plainTx_def queue1_def queueOf_def stateOf_def
      ledger0_def isBanned_def u64_def maxQueueSizeOps_def INT64_MAX_def)


subsection \<open>C5: the reservation check\<close>




subsection \<open>C6: a fee bump outside the queued sequence numbers\<close>

text \<open>
  Claim C6 says that every fee-bump envelope whose source account has a non-empty queue
  and whose sequence number lies outside \<open>[first, last + 1]\<close> is answered with
  \<^verbatim>\<open>ADD_STATUS_ERROR\<close> and \<^verbatim>\<open>txBAD_SEQ\<close>. The ban check comes first: a banned envelope of
  that kind is answered with \<^verbatim>\<open>ADD_STATUS_TRY_AGAIN_LATER\<close> and no code is written.
\<close>

theorem feebump_bad_seq_banned_counterexample:
  "getEnvelopeType (feeBumpTx 77 14 1 2 9 1 5000) = ENVELOPE_TYPE_TX_FEE_BUMP
   \<and> map_of (mAccountStates queueB) (getSourceID (feeBumpTx 77 14 1 2 9 1 5000))
       = Some (stateOf 100 1 0 [tx5])
   \<and> mTransactions (stateOf 100 1 0 [tx5]) \<noteq> []
   \<and> getSeqNum (feeBumpTx 77 14 1 2 9 1 5000)
       > getSeqNum (last (mTransactions (stateOf 100 1 0 [tx5]))) + 1
   \<and> tryAdd ledger0 (feeBumpTx 77 14 1 2 9 1 5000) queueB
       = Some (ADD_STATUS_TRY_AGAIN_LATER, None, queueB)"
  by (simp add: feeBumpTx_def tx5_def plainTx_def queueB_def queueOf_def stateOf_def
      isBanned_def tryAdd_def canAdd_def)


text \<open>
  Claim C6, amended: for every fee-bump envelope that is not banned and whose source
  account has a non-empty queue, if its sequence number lies outside
  \<open>[first, last + 1]\<close> then \<^verbatim>\<open>tryAdd\<close> returns \<^verbatim>\<open>ADD_STATUS_ERROR\<close>, the code written is
  \<^verbatim>\<open>txBAD_SEQ\<close> and the queue is unchanged.
\<close>

theorem feebump_bad_seq:
  assumes "\<not> isBanned q (getFullHash tx)"
    and "getEnvelopeType tx = ENVELOPE_TYPE_TX_FEE_BUMP"
    and "map_of (mAccountStates q) (getSourceID tx) = Some st" "mTransactions st \<noteq> []"
    and "getSeqNum tx < getSeqNum (hd (mTransactions st))
         \<or> getSeqNum tx > getSeqNum (last (mTransactions st)) + 1"
  shows "tryAdd lv tx q = Some (ADD_STATUS_ERROR, Some txBAD_SEQ, q)"
  using tryAdd_rejected [OF assms(1) canAddLocate_feebump_bad_seq [OF assms(2-5)]] by simp


theorem feebump_bad_seq_witness:
  "\<not> isBanned queue1 (getFullHash (feeBumpTx 13 14 1 2 9 1 5000))
   \<and> getSeqNum (feeBumpTx 13 14 1 2 9 1 5000) > getSeqNum (last [tx5]) + 1
   \<and> tryAdd ledger0 (feeBumpTx 13 14 1 2 9 1 5000) queue1
       = Some (ADD_STATUS_ERROR, Some txBAD_SEQ, queue1)"
  using feebump_bad_seq [of queue1 "feeBumpTx 13 14 1 2 9 1 5000" "stateOf 100 1 0 [tx5]" ledger0]
  by (simp add: feeBumpTx_def tx5_def plainTx_def queue1_def queueOf_def stateOf_def
      isBanned_def)


subsection \<open>C7: the capacity check\<close>

text \<open>
  Claim C7 says that a transaction that is neither banned nor a duplicate and whose
  operations do not fit is banned with \<^verbatim>\<open>ADD_STATUS_TRY_AGAIN_LATER\<close>. The lookup by
  sequence number and the fee rule come before the capacity check (lines 141--160): on
  the full queue below, a fee bump with a sequence number beyond the queued ones gets
  \<^verbatim>\<open>ADD_STATUS_ERROR\<close> with \<^verbatim>\<open>txBAD_SEQ\<close>, and one that fails the fee rule gets
  \<^verbatim>\<open>ADD_STATUS_ERROR\<close> with \<^verbatim>\<open>txINSUFFICIENT_FEE\<close>; neither is banned and the queue is
  unchanged, although one operation more than the pool admits would be queued.
\<close>

theorem capacity_ban_only_counterexample:
  "\<not> isBanned queueFull (getFullHash (feeBumpTx 33 34 1 1 9 1 5000))
   \<and> \<not> isDuplicateTx (plainTx 31 1 1 5 200 100) (feeBumpTx 33 34 1 1 9 1 5000)
   \<and> int (getNumOperations (feeBumpTx 33 34 1 1 9 1 5000)) + mQueueSizeOps_q queueFull
       > maxQueueSizeOps ledger0 queueFull
   \<and> tryAdd ledger0 (feeBumpTx 33 34 1 1 9 1 5000) queueFull
       = Some (ADD_STATUS_ERROR, Some txBAD_SEQ, queueFull)
   \<and> \<not> isBanned queueFull (getFullHash (feeBumpTx 35 36 1 1 5 201 100))
   \<and> \<not> isDuplicateTx (plainTx 31 1 1 5 200 100) (feeBumpTx 35 36 1 1 5 201 100)
   \<and> int (getNumOperations (feeBumpTx 35 36 1 1 5 201 100))
         - int (getNumOperations (plainTx 31 1 1 5 200 100)) + mQueueSizeOps_q queueFull
       > maxQueueSizeOps ledger0 queueFull
   \<and> tryAdd ledger0 (feeBumpTx 35 36 1 1 5 201 100) queueFull
       = Some (ADD_STATUS_ERROR, Some txINSUFFICIENT_FEE, queueFull)"
  by (simp add: tryAdd_def canAdd_def canAddLocate_def findBySeq_def isBanned_def
      isDuplicateTx_def canReplaceByFee_def bigMultiply_def FEE_MULTIPLIER_def u64_def u128_def
      maxQueueSizeOps_def int64_succ_def INT64_MAX_def INT64_MIN_def Let_def ledger0_def
      queueFull_def queueOf_def stateOf_def plainTx_def feeBumpTx_def)

text \<open>
  Claim C7, amended. Let \<open>tx\<close> be neither banned nor a duplicate nor refused by the
  lookup by sequence number or the fee rule, so that it reaches the capacity check
  with the local \<open>netOps\<close> (its operation count, less that of the replaced transaction
  when a slot is replaced). If \<open>netOps\<close> plus the operations queued (a \<^verbatim>\<open>size_t\<close> sum)
  exceeds \<^verbatim>\<open>maxQueueSizeOps()\<close>, then \<^verbatim>\<open>tryAdd\<close> returns \<^verbatim>\<open>ADD_STATUS_TRY_AGAIN_LATER\<close>
  and the queue afterwards is the queue before with the full hash of \<open>tx\<close> inserted into
  the front slot of the ban ring: no account entry, queued transaction or counter
  changes. \<^verbatim>\<open>maxQueueSizeOps()\<close> is the per-ledger operation cap times the pool
  multiplier. Full hashes identify envelopes: a queued transaction with the full hash of
  \<open>tx\<close> has its envelope type.
\<close>

theorem capacity_ban_only:
  assumes "\<not> isBanned q (getFullHash tx)"
    and "canAddLocate tx q = Some (Proceed netFee netOps seqNum oldTxIter)"
    and "0 \<le> netOps + mQueueSizeOps_q q" "netOps + mQueueSizeOps_q q < 2 ^ 64"
    and "netOps + mQueueSizeOps_q q > maxQueueSizeOps lv q"
    and "mBannedTransactions q = front # rest"
    and "\<forall>st. map_of (mAccountStates q) (getSourceID tx) = Some st \<longrightarrow>
           (\<forall>t \<in> set (mTransactions st).
              getFullHash t = getFullHash tx \<longrightarrow> getEnvelopeType t = getEnvelopeType tx)"
  shows "tryAdd lv tx q
           = Some (ADD_STATUS_TRY_AGAIN_LATER, None,
                   q\<lparr>mBannedTransactions := insert (getFullHash tx) front # rest\<rparr>)
       \<and> (case map_of (mAccountStates q) (getSourceID tx) of
            None \<Rightarrow> netOps = int (getNumOperations tx)
          | Some st \<Rightarrow>
              if oldTxIter < length (mTransactions st)
              then netOps = int (getNumOperations tx)
                            - int (getNumOperations (mTransactions st ! oldTxIter))
              else netOps = int (getNumOperations tx))
       \<and> (0 \<le> getLastMaxTxSetSizeOps lv \<and> 0 \<le> mPoolLedgerMultiplier q
           \<and> getLastMaxTxSetSizeOps lv * mPoolLedgerMultiplier q < 2 ^ 64 \<longrightarrow>
          maxQueueSizeOps lv q = getLastMaxTxSetSizeOps lv * mPoolLedgerMultiplier q)"
proof -
  have f: "findTx tx (mTransactions st) (length (mTransactions st))
             = Some (length (mTransactions st))"
    if "map_of (mAccountStates q) (getSourceID tx) = Some st" "mTransactions st \<noteq> []" for st
    using locate_findTx [OF assms(2) that] assms(7) that(1) by blast
  have b: "ban [tx] q
     = Some (q\<lparr>mBannedTransactions := insert (getFullHash tx) front # rest\<rparr>)"
    by (rule ban_single_unqueued [OF assms(6) f])
  have "u64 (netOps + mQueueSizeOps_q q) = netOps + mQueueSizeOps_q q"
    by (rule u64_id [OF assms(3,4)])
  with assms(5) have "u64 (netOps + mQueueSizeOps_q q) > maxQueueSizeOps lv q" by simp
  with canAdd_proceed [OF assms(1,2), of lv] b have
    "canAdd lv tx q = Some (ADD_STATUS_TRY_AGAIN_LATER, None,
        q\<lparr>mBannedTransactions := insert (getFullHash tx) front # rest\<rparr>, oldTxIter)"
    by simp
  from tryAdd_not_pending [OF this] have t: "tryAdd lv tx q
           = Some (ADD_STATUS_TRY_AGAIN_LATER, None,
                   q\<lparr>mBannedTransactions := insert (getFullHash tx) front # rest\<rparr>)"
    by simp
  have n: "(case map_of (mAccountStates q) (getSourceID tx) of
            None \<Rightarrow> netOps = int (getNumOperations tx)
          | Some st \<Rightarrow>
              if oldTxIter < length (mTransactions st)
              then netOps = int (getNumOperations tx)
                            - int (getNumOperations (mTransactions st ! oldTxIter))
              else netOps = int (getNumOperations tx))"
    using canAddLocate_netFee [OF assms(2)] by (auto split: option.splits if_splits)
  show ?thesis using t n maxQueueSizeOps_exact by blast
qed


text \<open>One more operation than the pool admits, from the account that fills the pool.\<close>

theorem capacity_ban_only_witness:
  "\<not> isBanned queueFull (getFullHash (plainTx 32 1 1 6 1 100))
   \<and> canAddLocate (plainTx 32 1 1 6 1 100) queueFull = Some (Proceed 100 1 5 1)
   \<and> maxQueueSizeOps ledger0 queueFull = 200
   \<and> 1 + mQueueSizeOps_q queueFull > maxQueueSizeOps ledger0 queueFull
   \<and> tryAdd ledger0 (plainTx 32 1 1 6 1 100) queueFull
       = Some (ADD_STATUS_TRY_AGAIN_LATER, None,
               queueFull\<lparr>mBannedTransactions := [{32}, {}]\<rparr>)"
  using capacity_ban_only [of queueFull "plainTx 32 1 1 6 1 100" 100 1 5 1 ledger0 "{}" "[{}]"]
  by (simp add: plainTx_def queueFull_def queueOf_def stateOf_def ledger0_def
      isBanned_def u64_def maxQueueSizeOps_def canAddLocate_def findBySeq_def Let_def)

subsection \<open>C8: submitting a transaction twice\<close>

text \<open>Below \<^verbatim>\<open>INT64_MAX\<close> the second call finds the transaction. If \<^verbatim>\<open>tryAdd\<close> returns
  \<^verbatim>\<open>ADD_STATUS_PENDING\<close> for \<open>tx\<close>, then \<^verbatim>\<open>tryAdd\<close> of \<open>tx\<close> on the resulting queue returns
  \<^verbatim>\<open>ADD_STATUS_DUPLICATE\<close>, writes no code and leaves the queue unchanged. The queue of
  the source account satisfies invariant 4 before the first call and holds no sequence
  number 0 at its tail (\<^verbatim>\<open>canAdd\<close> passes 0 to the validator when nothing is queued), and
  the validator accepts \<open>tx\<close> after a queued sequence number only if \<open>tx\<close> carries the
  next one. A queued transaction is a duplicate of \<open>tx\<close> when both have the same
  envelope type and full hash, or when it is a fee bump whose inner full hash is the
  full hash of the plain \<open>tx\<close>, and in no other case.\<close>

lemma tryAdd_twice_below_max:
  assumes "tryAdd lv tx q = Some (ADD_STATUS_PENDING, code, q')"
    and "\<forall>st. map_of (mAccountStates q) (getSourceID tx) = Some st \<longrightarrow>
           contiguous (mTransactions st)
           \<and> (mTransactions st \<noteq> [] \<longrightarrow> getSeqNum (last (mTransactions st)) \<noteq> 0)"
    and "\<forall>current. current \<noteq> 0 \<and> fst (checkValid lv tx current) \<longrightarrow>
           getSeqNum tx = current + 1"
    and "getSeqNum tx < INT64_MAX"
    and "\<forall>st. map_of (mAccountStates q) (getSourceID tx) = Some st \<longrightarrow>
           mTransactions st \<noteq> [] \<longrightarrow> getSeqNum (last (mTransactions st)) < INT64_MAX"
  shows "tryAdd lv tx q' = Some (ADD_STATUS_DUPLICATE, None, q')
       \<and> (\<forall>oldTx. isDuplicateTx oldTx tx =
            (if getEnvelopeType oldTx = getEnvelopeType tx
             then getFullHash oldTx = getFullHash tx
             else getEnvelopeType oldTx = ENVELOPE_TYPE_TX_FEE_BUMP
                  \<and> getEnvelopeType tx = ENVELOPE_TYPE_TX
                  \<and> getInnerFullHash oldTx = getFullHash tx))"
proof -
  from tryAdd_pending_queue [OF assms(1)] obtain netFee netOps seqNum oldTxIter st' where
    nb: "\<not> isBanned q (getFullHash tx)"
    and l: "canAddLocate tx q = Some (Proceed netFee netOps seqNum oldTxIter)"
    and v: "fst (checkValid lv tx seqNum)"
    and ring: "mBannedTransactions q' = mBannedTransactions q"
    and s': "map_of (mAccountStates q') (getSourceID tx) = Some st'"
    and t': "mTransactions st' =
          (case map_of (mAccountStates q) (getSourceID tx) of
             None \<Rightarrow> [tx]
           | Some st \<Rightarrow> if oldTxIter < length (mTransactions st)
                        then (mTransactions st)[oldTxIter := tx]
                        else mTransactions st @ [tx])"
    by blast
  have "contiguous (mTransactions st') \<and> (\<exists>i < length (mTransactions st'). mTransactions st' ! i = tx)"
  proof (cases "map_of (mAccountStates q) (getSourceID tx)")
    case None
    with t' have "mTransactions st' = [tx]" by simp
    then show ?thesis by simp
  next
    case (Some st)
    with assms(2) have co: "contiguous (mTransactions st)"
      and nz: "mTransactions st \<noteq> [] \<Longrightarrow> getSeqNum (last (mTransactions st)) \<noteq> 0" by auto
    show ?thesis
    proof (cases "oldTxIter < length (mTransactions st)")
      case True
      with t' Some have e: "mTransactions st' = (mTransactions st)[oldTxIter := tx]" by simp
      from True canAddLocate_netFee [OF l] Some
      have "getSeqNum (mTransactions st ! oldTxIter) = getSeqNum tx" by simp
      from contiguous_update [OF co True this] have "contiguous (mTransactions st')"
        unfolding e .
      moreover have "oldTxIter < length (mTransactions st')" using True e by simp
      moreover have "mTransactions st' ! oldTxIter = tx" using True e by simp
      ultimately show ?thesis by blast
    next
      case False
      with t' Some have e: "mTransactions st' = mTransactions st @ [tx]" by simp
      have i: "length (mTransactions st) < length (mTransactions st')"
        "mTransactions st' ! length (mTransactions st) = tx"
        using e by simp_all
      have "contiguous (mTransactions st')"
      proof (cases "mTransactions st = []")
        case True
        with e show ?thesis by simp
      next
        case ne: False
        have "getSeqNum tx = getSeqNum (last (mTransactions st)) + 1"
        proof (cases "getEnvelopeType tx = ENVELOPE_TYPE_TX_FEE_BUMP")
          case True
          with canAddLocate_append_seq [OF l Some ne co False] show ?thesis by simp
        next
          case False
          with canAddLocate_append_seq [OF l Some ne co \<open>\<not> oldTxIter < length (mTransactions st)\<close>]
          have "seqNum = getSeqNum (last (mTransactions st))" by simp
          with nz [OF ne] v have "getSeqNum (last (mTransactions st)) \<noteq> 0
             \<and> fst (checkValid lv tx (getSeqNum (last (mTransactions st))))" by simp
          with assms(3) show ?thesis by blast
        qed
        from contiguous_append [OF co ne this] show ?thesis unfolding e .
      qed
      with i show ?thesis by blast
    qed
  qed
  then obtain i where co': "contiguous (mTransactions st')"
    and i: "i < length (mTransactions st')" "mTransactions st' ! i = tx" by blast
  have lb: "getSeqNum (last (mTransactions st')) < INT64_MAX"
  proof (cases "map_of (mAccountStates q) (getSourceID tx)")
    case None
    with t' assms(4) show ?thesis by simp
  next
    case (Some st)
    show ?thesis
    proof (cases "oldTxIter < length (mTransactions st)")
      case True
      then have ne: "mTransactions st \<noteq> []" by auto
      from True t' Some have "mTransactions st' = (mTransactions st)[oldTxIter := tx]" by simp
      with ne have "last (mTransactions st')
          = (if oldTxIter = length (mTransactions st) - 1 then tx else last (mTransactions st))"
        by (simp add: last_list_update)
      with assms(4,5) Some ne show ?thesis by simp
    next
      case False
      with t' Some assms(4) show ?thesis by simp
    qed
  qed
  have nb': "\<not> isBanned q' (getFullHash tx)" using nb ring by (simp add: isBanned_def)
  have d: "tryAdd lv tx q' = Some (ADD_STATUS_DUPLICATE, None, q')"
    using tryAdd_rejected [OF nb' canAddLocate_queued [OF s' co' i lb]] by simp
  have "isDuplicateTx oldTx tx =
            (if getEnvelopeType oldTx = getEnvelopeType tx
             then getFullHash oldTx = getFullHash tx
             else getEnvelopeType oldTx = ENVELOPE_TYPE_TX_FEE_BUMP
                  \<and> getEnvelopeType tx = ENVELOPE_TYPE_TX
                  \<and> getInnerFullHash oldTx = getFullHash tx)" for oldTx
  proof (cases "getEnvelopeType tx")
    case ENVELOPE_TYPE_TX
    then show ?thesis by (simp add: isDuplicateTx_def)
  next
    case ENVELOPE_TYPE_TX_FEE_BUMP
    then show ?thesis by (simp add: isDuplicateTx_def)
  qed
  with d show ?thesis by simp
qed

text \<open>Scenario 2 of the spec, with a second transaction behind the queued one.\<close>

lemma tryAdd_twice_scenario:
  "tryAdd ledger0 (plainTx 12 1 1 6 1 100) queue1
     = Some (ADD_STATUS_PENDING, Some (txValidatorCode 0),
             queueOf [(1, stateOf 200 2 0 [tx5, plainTx 12 1 1 6 1 100])] [{}, {}] 2)
   \<and> tryAdd ledger0 (plainTx 12 1 1 6 1 100)
         (queueOf [(1, stateOf 200 2 0 [tx5, plainTx 12 1 1 6 1 100])] [{}, {}] 2)
     = Some (ADD_STATUS_DUPLICATE, None,
             queueOf [(1, stateOf 200 2 0 [tx5, plainTx 12 1 1 6 1 100])] [{}, {}] 2)"
proof -
  have p: "tryAdd ledger0 (plainTx 12 1 1 6 1 100) queue1
     = Some (ADD_STATUS_PENDING, Some (txValidatorCode 0),
             queueOf [(1, stateOf 200 2 0 [tx5, plainTx 12 1 1 6 1 100])] [{}, {}] 2)"
    by (simp add: tryAdd_def canAdd_def canAddLocate_def findBySeq_def isDuplicateTx_def
        Let_def tryAddAppend_def tryAddCount_def isBanned_def u64_def maxQueueSizeOps_def
        int64_succ_def INT64_MAX_def INT64_MIN_def
        plainTx_def tx5_def queue1_def queueOf_def stateOf_def ledger0_def)
  have c: "\<forall>st. map_of (mAccountStates queue1) (getSourceID (plainTx 12 1 1 6 1 100)) = Some st \<longrightarrow>
           contiguous (mTransactions st)
           \<and> (mTransactions st \<noteq> [] \<longrightarrow> getSeqNum (last (mTransactions st)) \<noteq> 0)"
    by (simp add: plainTx_def tx5_def queue1_def queueOf_def stateOf_def)
  have v: "\<forall>current. current \<noteq> 0 \<and> fst (checkValid ledger0 (plainTx 12 1 1 6 1 100) current) \<longrightarrow>
           getSeqNum (plainTx 12 1 1 6 1 100) = current + 1"
    by (simp add: plainTx_def ledger0_def)
  have b: "getSeqNum (plainTx 12 1 1 6 1 100) < INT64_MAX"
    by (simp add: plainTx_def INT64_MAX_def)
  have l: "\<forall>st. map_of (mAccountStates queue1) (getSourceID (plainTx 12 1 1 6 1 100)) = Some st \<longrightarrow>
           mTransactions st \<noteq> [] \<longrightarrow> getSeqNum (last (mTransactions st)) < INT64_MAX"
    by (simp add: plainTx_def tx5_def queue1_def queueOf_def stateOf_def INT64_MAX_def)
  from tryAdd_twice_below_max [OF p c v b l] p show ?thesis by simp
qed

text \<open>
  Claim C8. If \<^verbatim>\<open>tryAdd\<close> returns \<^verbatim>\<open>ADD_STATUS_PENDING\<close> for \<open>tx\<close>, then \<^verbatim>\<open>tryAdd\<close> of
  \<open>tx\<close> on the resulting queue returns \<^verbatim>\<open>ADD_STATUS_DUPLICATE\<close>. The code breaks this at
  the sequence number \<^verbatim>\<open>INT64_MAX\<close>, which the validator admits on a ledger where the
  account stands at \<^verbatim>\<open>INT64_MAX - 1\<close>. The first call queues the transaction; in the
  second, line 68 of \<^verbatim>\<open>findBySeq\<close> adds 1 to the last queued sequence number, the sum
  wraps to \<^verbatim>\<open>INT64_MIN\<close>, the lookup fails and the duplicate is not seen: a fee bump is
  refused with \<^verbatim>\<open>txBAD_SEQ\<close> at line 143, and a plain transaction goes on to the
  validator with \<^verbatim>\<open>INT64_MAX\<close> as the sequence number to follow and is refused there.
  The queue is the same before and after the second call.
\<close>

theorem tryAdd_twice_at_INT64_MAX:
  "tryAdd ledgerMax (feeBumpTx 71 72 1 1 INT64_MAX 1 100) (queueOf [] [{}, {}] 0)
     = Some (ADD_STATUS_PENDING, Some (txValidatorCode 0),
             queueOf [(1, stateOf 100 1 0 [feeBumpTx 71 72 1 1 INT64_MAX 1 100])] [{}, {}] 1)
   \<and> tryAdd ledgerMax (feeBumpTx 71 72 1 1 INT64_MAX 1 100)
         (queueOf [(1, stateOf 100 1 0 [feeBumpTx 71 72 1 1 INT64_MAX 1 100])] [{}, {}] 1)
     = Some (ADD_STATUS_ERROR, Some txBAD_SEQ,
             queueOf [(1, stateOf 100 1 0 [feeBumpTx 71 72 1 1 INT64_MAX 1 100])] [{}, {}] 1)
   \<and> tryAdd ledgerMax (plainTx 73 1 1 INT64_MAX 1 100) (queueOf [] [{}, {}] 0)
     = Some (ADD_STATUS_PENDING, Some (txValidatorCode 0),
             queueOf [(1, stateOf 100 1 0 [plainTx 73 1 1 INT64_MAX 1 100])] [{}, {}] 1)
   \<and> tryAdd ledgerMax (plainTx 73 1 1 INT64_MAX 1 100)
         (queueOf [(1, stateOf 100 1 0 [plainTx 73 1 1 INT64_MAX 1 100])] [{}, {}] 1)
     = Some (ADD_STATUS_ERROR, Some txBAD_SEQ,
             queueOf [(1, stateOf 100 1 0 [plainTx 73 1 1 INT64_MAX 1 100])] [{}, {}] 1)"
  by (simp add: tryAdd_def canAdd_def canAddLocate_def findBySeq_def isDuplicateTx_def
      Let_def tryAddAppend_def tryAddCount_def isBanned_def u64_def maxQueueSizeOps_def
      int64_succ_def INT64_MAX_def INT64_MIN_def AccountState_new_def
      plainTx_def feeBumpTx_def queueOf_def stateOf_def ledgerMax_def)

subsection \<open>C9: a ban lasts for the depth of the ring\<close>

text \<open>
  Claim C9 says that after \<^verbatim>\<open>ban({tx})\<close> every \<^verbatim>\<open>tryAdd\<close> of \<open>tx\<close> is refused until the
  ring has been shifted as often as it has slots. \<^verbatim>\<open>maybeVersionUpgraded\<close> clears every
  slot when it sees the upgrade to version 13 (lines 560--565): below, the transaction
  is banned on a queue at version 12, the upgrade follows, no \<^verbatim>\<open>shift\<close> has been called,
  and \<^verbatim>\<open>tryAdd\<close> admits the transaction.
\<close>

theorem ban_until_shifted_counterexample:
  "ban [plainTx 40 3 3 5 1 100] queueV12
     = Some (queueV12\<lparr>mBannedTransactions := [{40}, {}]\<rparr>)
   \<and> calls [MaybeVersionUpgraded 13 id] (queueV12\<lparr>mBannedTransactions := [{40}, {}]\<rparr>)
     = Some queue1
   \<and> shiftCalls [MaybeVersionUpgraded 13 id] < length (mBannedTransactions queueV12)
   \<and> tryAdd ledger0 (plainTx 40 3 3 5 1 100) queue1
     = Some (ADD_STATUS_PENDING, Some (txValidatorCode 0),
             queueOf [(1, stateOf 100 1 0 [tx5]), (3, stateOf 100 1 0 [plainTx 40 3 3 5 1 100])]
               [{}, {}] 2)"
  by (simp add: ban_def bannedFront_emplace_def transactionsByAccount_def banAccount_def
      calls_def maybeVersionUpgraded_def tryAdd_def canAdd_def canAddLocate_def isBanned_def
      tryAddAppend_def tryAddCount_def AccountState_new_def u64_def maxQueueSizeOps_def
      Let_def ledger0_def queueV12_def queue1_def queueOf_def stateOf_def tx5_def plainTx_def)

text \<open>
  Claim C9, amended. Let \<^verbatim>\<open>ban({tx})\<close> be followed by any sequence of calls of \<^verbatim>\<open>tryAdd\<close>,
  \<^verbatim>\<open>removeApplied\<close>, \<^verbatim>\<open>ban\<close>, \<^verbatim>\<open>shift\<close> and \<^verbatim>\<open>maybeVersionUpgraded\<close>.
  \<^item> If \<^verbatim>\<open>shift\<close> was called fewer times than the ring has slots and no
    \<^verbatim>\<open>maybeVersionUpgraded\<close> has cleared the ring, the full hash of \<open>tx\<close> is still in
    the ring and \<^verbatim>\<open>tryAdd\<close> of \<open>tx\<close> returns \<^verbatim>\<open>ADD_STATUS_TRY_AGAIN_LATER\<close> without
    changing the queue.
  \<^item> If \<^verbatim>\<open>shift\<close> was called at least as often as the ring has slots and no call has
    put the hash back into the front slot, the hash is in no slot and the ban check
    lets \<open>tx\<close> pass.
\<close>

theorem ban_until_shifted:
  assumes "ban [tx] q = Some q0" and "calls cs q0 = Some q'"
  shows "(shiftCalls cs < length (mBannedTransactions q) \<and> \<not> clears cs q0 \<longrightarrow>
            isBanned q' (getFullHash tx)
            \<and> tryAdd lv tx q' = Some (ADD_STATUS_TRY_AGAIN_LATER, None, q'))
       \<and> (length (mBannedTransactions q) \<le> shiftCalls cs
              \<and> \<not> reinserts (getFullHash tx) cs q0 \<longrightarrow>
            \<not> isBanned q' (getFullHash tx))"
proof -
  from ban_ring [OF assms(1)] obtain F R F' where
    r: "mBannedTransactions q = F # R" and r0: "mBannedTransactions q0 = F' # R"
    and h: "getFullHash tx \<in> F'" by auto
  have len: "length (mBannedTransactions q0) = length (mBannedTransactions q)"
    using r r0 by simp
  have a: "isBanned q' (getFullHash tx)
            \<and> tryAdd lv tx q' = Some (ADD_STATUS_TRY_AGAIN_LATER, None, q')"
    if n: "shiftCalls cs < length (mBannedTransactions q)" and c: "\<not> clears cs q0"
  proof -
    from n len have "0 + shiftCalls cs < length (mBannedTransactions q0)" by simp
    moreover from r0 h have "getFullHash tx \<in> mBannedTransactions q0 ! 0" by simp
    ultimately have "length (mBannedTransactions q') = length (mBannedTransactions q0)"
      "getFullHash tx \<in> mBannedTransactions q' ! (0 + shiftCalls cs)"
      using calls_keep_ban [OF assms(2) c] by blast+
    with n len have "mBannedTransactions q' ! shiftCalls cs \<in> set (mBannedTransactions q')"
      "getFullHash tx \<in> mBannedTransactions q' ! shiftCalls cs" by simp_all
    then have "isBanned q' (getFullHash tx)"
      unfolding isBanned_def list_ex_iff by blast
    with tryAdd_banned show ?thesis by blast
  qed
  have b: "\<not> isBanned q' (getFullHash tx)"
    if n: "length (mBannedTransactions q) \<le> shiftCalls cs"
      and f: "\<not> reinserts (getFullHash tx) cs q0"
  proof
    assume "isBanned q' (getFullHash tx)"
    then obtain i where i: "i < length (mBannedTransactions q')"
      "getFullHash tx \<in> mBannedTransactions q' ! i"
      by (auto simp add: isBanned_def list_ex_iff in_set_conv_nth)
    have "\<forall>i < length (mBannedTransactions q0). i < 0 \<longrightarrow>
        getFullHash tx \<notin> mBannedTransactions q0 ! i" by simp
    from calls_expire [OF assms(2) f this]
    have l': "length (mBannedTransactions q') = length (mBannedTransactions q0)"
      and e: "\<forall>i < length (mBannedTransactions q0). i < 0 + shiftCalls cs \<longrightarrow>
          getFullHash tx \<notin> mBannedTransactions q' ! i" by blast+
    from i(1) l' len n have "i < length (mBannedTransactions q0)" "i < 0 + shiftCalls cs"
      by simp_all
    with e i(2) show False by blast
  qed
  from a b show ?thesis by blast
qed

text \<open>A ring of two slots. The ban of an unqueued transaction is followed by an
  admission for another account and one \<^verbatim>\<open>shift\<close>: the transaction is still refused.
  After a \<^verbatim>\<open>shift\<close>, a \<^verbatim>\<open>removeApplied\<close> and a second \<^verbatim>\<open>shift\<close> the ban is over.\<close>

theorem ban_until_shifted_witness:
  "ban [plainTx 40 3 3 5 1 100] queue1 = Some queueBan0
   \<and> calls [TryAdd ledger0 (plainTx 41 2 2 5 1 50), Shift] queueBan0
       = Some (queueOf [(1, stateOf 100 1 1 [tx5]), (2, stateOf 50 1 1 [plainTx 41 2 2 5 1 50])]
                 [{}, {40}] 2)
   \<and> tryAdd ledger0 (plainTx 40 3 3 5 1 100)
         (queueOf [(1, stateOf 100 1 1 [tx5]), (2, stateOf 50 1 1 [plainTx 41 2 2 5 1 50])]
            [{}, {40}] 2)
       = Some (ADD_STATUS_TRY_AGAIN_LATER, None,
               queueOf [(1, stateOf 100 1 1 [tx5]), (2, stateOf 50 1 1 [plainTx 41 2 2 5 1 50])]
                 [{}, {40}] 2)
   \<and> calls [Shift, RemoveApplied [tx5], Shift] queueBan0 = Some (queueOf [] [{}, {}] 0)
   \<and> \<not> isBanned (queueOf [] [{}, {}] 0) (getFullHash (plainTx 40 3 3 5 1 100))"
proof -
  let ?tx = "plainTx 40 3 3 5 1 100"
  let ?qA = "queueOf [(1, stateOf 100 1 0 [tx5]), (2, stateOf 50 1 0 [plainTx 41 2 2 5 1 50])]
               [{40}, {}] 2"
  let ?qB = "queueOf [(1, stateOf 100 1 1 [tx5]), (2, stateOf 50 1 1 [plainTx 41 2 2 5 1 50])]
               [{}, {40}] 2"
  let ?qC = "queueOf [(1, stateOf 100 1 1 [tx5])] [{}, {40}] 1"
  let ?qD = "queueOf [] [{}, {40}] 0"
  let ?qE = "queueOf [] [{}, {}] 0"
  have b: "ban [?tx] queue1 = Some queueBan0"
    by (simp add: ban_def bannedFront_emplace_def transactionsByAccount_def banAccount_def
        plainTx_def queue1_def queueBan0_def queueOf_def stateOf_def)
  have c1: "call (TryAdd ledger0 (plainTx 41 2 2 5 1 50)) queueBan0 = Some ?qA"
    by (simp add: tryAdd_def canAdd_def canAddLocate_def isBanned_def tryAddAppend_def
        tryAddCount_def AccountState_new_def u64_def maxQueueSizeOps_def Let_def ledger0_def
        queueBan0_def queueOf_def stateOf_def tx5_def plainTx_def)
  have c2: "call Shift ?qA = Some ?qB"
    by (simp add: shift_def shiftAccount_def Let_def queueOf_def stateOf_def)
  have c3: "call Shift queueBan0 = Some ?qC"
    by (simp add: shift_def shiftAccount_def Let_def queueBan0_def queueOf_def stateOf_def)
  have c4: "call (RemoveApplied [tx5]) ?qC = Some ?qD"
    by (simp add: removeApplied_def seqByAccount_def removeAppliedAccount_def findBySeq_def
        dropTransactions_def dropOne_def releaseFeeMaybeEraseAccountState_def Let_def u64_def
        int64_succ_def INT64_MAX_def INT64_MIN_def queueOf_def stateOf_def tx5_def plainTx_def)
  have c5: "call Shift ?qD = Some ?qE"
    by (simp add: shift_def queueOf_def)
  have r1: "calls [TryAdd ledger0 (plainTx 41 2 2 5 1 50), Shift] queueBan0 = Some ?qB"
    by (simp only: calls_def forEach.simps c1 c2 option.case)
  have n1: "\<not> clears [TryAdd ledger0 (plainTx 41 2 2 5 1 50), Shift] queueBan0"
    by (simp only: clears.simps upgrades.simps c1 c2 option.case simp_thms)
  have r2: "calls [Shift, RemoveApplied [tx5], Shift] queueBan0 = Some ?qE"
    by (simp only: calls_def forEach.simps c3 c4 c5 option.case)
  have n2: "\<not> reinserts (getFullHash ?tx) [Shift, RemoveApplied [tx5], Shift] queueBan0"
    by (simp only: reinserts.simps isShift.simps c3 c4 c5 option.case)
      (simp add: bannedFront_def queueOf_def queueBan0_def plainTx_def)
  have l: "length (mBannedTransactions queue1) = 2" by (simp add: queue1_def queueOf_def)
  from ban_until_shifted [OF b r1, of ledger0] n1 l
  have t1: "tryAdd ledger0 ?tx ?qB = Some (ADD_STATUS_TRY_AGAIN_LATER, None, ?qB)" by simp
  from ban_until_shifted [OF b r2, of ledger0] n2 l
  have t2: "\<not> isBanned ?qE (getFullHash ?tx)" by simp
  from b r1 t1 r2 t2 show ?thesis by simp
qed

subsection \<open>C3: eviction by age\<close>

text \<open>
  Claim C3. Let the account \<open>a\<close> hold queued transactions and reach the age
  \<^verbatim>\<open>mPendingDepth\<close> with the increment of this \<^verbatim>\<open>shift\<close>. The loop of \<^verbatim>\<open>shift\<close> runs over
  the accounts \<open>pre\<close>, then \<open>a\<close>, then \<open>post\<close>; \<open>q1\<close> and \<open>q2\<close> are the queue before and
  after the iteration for \<open>a\<close>, and the ring was rotated before the loop. When the loop
  reaches \<open>a\<close> its queue, age and operation count are still those of the start. The
  iteration for \<open>a\<close>
  \<^item> inserts the full hash of every queued transaction of \<open>a\<close> into the front slot;
  \<^item> subtracts the operation count of \<open>a\<close> from the global count;
  \<^item> releases the fee of every queued transaction: the total of every account falls by
    the fees it pays for them, and an account other than \<open>a\<close> without transactions
    whose total reaches 0 by such a release is erased;
  \<^item> erases the entry of \<open>a\<close> exactly when its remaining total is 0, and otherwise
    leaves it with no transactions, age 0 and operation count 0.
  At the end of \<^verbatim>\<open>shift\<close> the hashes are in the front slot, and \<open>a\<close> is erased or has no
  transactions, age 0 and a non-zero total.
\<close>

theorem shift_evicts_aged_account:
  assumes "shift q = Some q'"
    and "map_of (mAccountStates q) a = Some st"
    and "mTransactions st \<noteq> []" and "mAge st + 1 = mPendingDepth q"
  shows "\<exists>pre post q1 q2 st1 F.
       map fst (mAccountStates q) = pre @ a # post \<and> a \<notin> set pre
     \<and> forEach shiftAccount pre
           (q\<lparr>mBannedTransactions := {} # butlast (mBannedTransactions q)\<rparr>) = Some q1
     \<and> shiftAccount a q1 = Some q2
     \<and> forEach shiftAccount post q2 = Some q'
     \<and> map_of (mAccountStates q1) a = Some st1
     \<and> mTransactions st1 = mTransactions st \<and> mAge st1 = mAge st
     \<and> mQueueSizeOps st1 = mQueueSizeOps st
     \<and> mBannedTransactions q1 = F # butlast (mBannedTransactions q)
     \<and> mBannedTransactions q2
           = (getFullHash ` set (mTransactions st) \<union> F) # butlast (mBannedTransactions q)
     \<and> mQueueSizeOps_q q2 = u64 (mQueueSizeOps_q q1 - mQueueSizeOps st)
     \<and> map_of (mAccountStates q2) a =
           (if mTotalFees st1 - feesOn a (mTransactions st) = 0 then None
            else Some \<lparr>mTotalFees = mTotalFees st1 - feesOn a (mTransactions st),
                       mQueueSizeOps = 0, mAge = 0, mTransactions = []\<rparr>)
     \<and> (\<forall>b. b \<noteq> a \<longrightarrow> map_of (mAccountStates q2) b =
           (case map_of (mAccountStates q1) b of
              None \<Rightarrow> None
            | Some sb \<Rightarrow>
                if mTransactions sb = []
                   \<and> (\<exists>t \<in> set (mTransactions st). getFeeSourceID t = b)
                   \<and> mTotalFees sb = feesOn b (mTransactions st)
                then None
                else Some (sb\<lparr>mTotalFees := mTotalFees sb - feesOn b (mTransactions st)\<rparr>)))
     \<and> (\<exists>F'. mBannedTransactions q' = F' # butlast (mBannedTransactions q)
            \<and> getFullHash ` set (mTransactions st) \<subseteq> F')
     \<and> (mTotalFees st1 - feesOn a (mTransactions st) = 0 \<longrightarrow>
            map_of (mAccountStates q') a = None)
     \<and> (case map_of (mAccountStates q') a of
           None \<Rightarrow> True
         | Some st' \<Rightarrow> mTransactions st' = [] \<and> mAge st' = 0 \<and> mQueueSizeOps st' = 0
                      \<and> mTotalFees st' \<noteq> 0)"
proof -
  define q0 where "q0 = q\<lparr>mBannedTransactions := {} # butlast (mBannedTransactions q)\<rparr>"
  define R where "R = butlast (mBannedTransactions q)"
  let ?txs = "mTransactions st"
  let ?H = "getFullHash ` set ?txs"
  from assms(2) have "a \<in> set (map fst (mAccountStates q))"
    by (force dest: map_of_SomeD)
  from split_list_first [OF this] obtain pre post where
    keys: "map fst (mAccountStates q) = pre @ a # post" and npre: "a \<notin> set pre" by blast
  from shift_unfold [OF assms(1)] keys have
    "forEach shiftAccount (pre @ a # post) q0 = Some q'" by (simp add: q0_def)
  then obtain q1 q2 where f1: "forEach shiftAccount pre q0 = Some q1"
    and sa: "shiftAccount a q1 = Some q2"
    and f2: "forEach shiftAccount post q2 = Some q'"
    by (auto simp add: forEach_append split: option.splits)
  \<comment> \<open>the accounts visited before \<open>a\<close>\<close>
  define P1 where "P1 s \<longleftrightarrow>
      (\<exists>sa F. map_of (mAccountStates s) a = Some sa
         \<and> mTransactions sa = ?txs \<and> mAge sa = mAge st
         \<and> mQueueSizeOps sa = mQueueSizeOps st
         \<and> mBannedTransactions s = F # R \<and> mPendingDepth s = mPendingDepth q)"
    for s :: TransactionQueue
  have "P1 q0" using assms(2) by (auto simp add: P1_def q0_def R_def)
  have "P1 q1"
  proof (rule forEach_invariant [where P = P1, OF f1 \<open>P1 q0\<close>])
    fix k s s'
    assume k: "k \<in> set pre" and p: "P1 s" and s: "shiftAccount k s = Some s'"
    from k npre have ka: "k \<noteq> a" by auto
    from p obtain sa F where m: "map_of (mAccountStates s) a = Some sa"
      and e: "mTransactions sa = ?txs" "mAge sa = mAge st" "mQueueSizeOps sa = mQueueSizeOps st"
      and r: "mBannedTransactions s = F # R" and d: "mPendingDepth s = mPendingDepth q"
      unfolding P1_def by blast
    from e(1) assms(3) have ne: "mTransactions sa \<noteq> []" by simp
    from shiftAccount_before [OF s ka r m ne] e d show "P1 s'"
      unfolding P1_def by auto
  qed
  then obtain st1 F where m1: "map_of (mAccountStates q1) a = Some st1"
    and e1: "mTransactions st1 = ?txs" "mAge st1 = mAge st"
      "mQueueSizeOps st1 = mQueueSizeOps st"
    and r1: "mBannedTransactions q1 = F # R" and d1: "mPendingDepth q1 = mPendingDepth q"
    unfolding P1_def by blast
  \<comment> \<open>the iteration for \<open>a\<close>\<close>
  have c: "mPendingDepth q1 = (if mTransactions st1 \<noteq> [] then mAge st1 + 1 else mAge st1)"
    using e1 d1 assms(3,4) by simp
  note ev = shiftAccount_evict [OF sa m1 c r1, unfolded e1]
  have others: "map_of (mAccountStates q2) b =
           (case map_of (mAccountStates q1) b of
              None \<Rightarrow> None
            | Some sb \<Rightarrow>
                if mTransactions sb = []
                   \<and> (\<exists>t \<in> set ?txs. getFeeSourceID t = b)
                   \<and> mTotalFees sb = feesOn b ?txs
                then None
                else Some (sb\<lparr>mTotalFees := mTotalFees sb - feesOn b ?txs\<rparr>))"
    if "b \<noteq> a" for b
    using ev(6) [OF that] by (simp add: released_def split: option.splits)
  \<comment> \<open>the accounts visited after \<open>a\<close>\<close>
  define P2 where "P2 s \<longleftrightarrow>
      (case map_of (mAccountStates s) a of
         None \<Rightarrow> True
       | Some sa \<Rightarrow> mTransactions sa = [] \<and> mAge sa = 0 \<and> mQueueSizeOps sa = 0
                   \<and> mTotalFees sa \<noteq> 0)
      \<and> (mTotalFees st1 - feesOn a ?txs = 0 \<longrightarrow> map_of (mAccountStates s) a = None)
      \<and> (\<exists>F'. mBannedTransactions s = F' # R \<and> ?H \<subseteq> F')
      \<and> mPendingDepth s = mPendingDepth q"
    for s :: TransactionQueue
  have "P2 q2" using ev(1,3,5) d1 by (auto simp add: P2_def)
  have "P2 q'"
  proof (rule forEach_invariant [where P = P2, OF f2 \<open>P2 q2\<close>])
    fix k s s'
    assume p: "P2 s" and s: "shiftAccount k s = Some s'"
    from p obtain F' where r: "mBannedTransactions s = F' # R" and h: "?H \<subseteq> F'"
      and d: "mPendingDepth s = mPendingDepth q"
      and z: "mTotalFees st1 - feesOn a ?txs = 0 \<longrightarrow> map_of (mAccountStates s) a = None"
      and m: "case map_of (mAccountStates s) a of
         None \<Rightarrow> True
       | Some sa \<Rightarrow> mTransactions sa = [] \<and> mAge sa = 0 \<and> mQueueSizeOps sa = 0
                   \<and> mTotalFees sa \<noteq> 0"
      unfolding P2_def by blast
    from d assms(4) have nz: "mPendingDepth s \<noteq> 0" by simp
    from shiftAccount_after [OF s r nz m] obtain F'' where
      "case map_of (mAccountStates s') a of
         None \<Rightarrow> True
       | Some sa \<Rightarrow> mTransactions sa = [] \<and> mAge sa = 0 \<and> mQueueSizeOps sa = 0
                   \<and> mTotalFees sa \<noteq> 0"
      "map_of (mAccountStates s) a = None \<longrightarrow> map_of (mAccountStates s') a = None"
      "mBannedTransactions s' = F'' # R" "F' \<subseteq> F''"
      "mPendingDepth s' = mPendingDepth s"
      by (elim conjE exE) (rule that, assumption+)
    with h d z show "P2 s'" unfolding P2_def by auto
  qed
  then have fin: "\<exists>F'. mBannedTransactions q' = F' # R \<and> ?H \<subseteq> F'"
    "mTotalFees st1 - feesOn a ?txs = 0 \<longrightarrow> map_of (mAccountStates q') a = None"
    "case map_of (mAccountStates q') a of
           None \<Rightarrow> True
         | Some st' \<Rightarrow> mTransactions st' = [] \<and> mAge st' = 0 \<and> mQueueSizeOps st' = 0
                      \<and> mTotalFees st' \<noteq> 0"
    unfolding P2_def by blast+
  show ?thesis
    apply (rule exI [of _ pre], rule exI [of _ post], rule exI [of _ q1], rule exI [of _ q2],
        rule exI [of _ st1], rule exI [of _ F])
    using keys npre f1 sa f2 m1 e1 r1 ev(1,2,5) others fin
    unfolding q0_def R_def
    by (intro conjI allI impI) simp_all
qed

text \<open>Scenario 6 of the spec: the fourth \<^verbatim>\<open>shift\<close> bans the transaction and erases both the
  account and the account that paid its fee.\<close>

theorem shift_evicts_aged_account_witness:
  "shift queueAged = Some (queueOf [] [{21}, {}] 0)
   \<and> map_of (mAccountStates queueAged) 1 = Some (stateOf 0 1 3 [plainTx 21 1 2 5 1 600])
   \<and> mAge (stateOf 0 1 3 [plainTx 21 1 2 5 1 600]) + 1 = mPendingDepth queueAged
   \<and> (\<exists>F'. mBannedTransactions (queueOf [] [{21}, {}] 0)
               = F' # butlast (mBannedTransactions queueAged)
          \<and> getFullHash ` set (mTransactions (stateOf 0 1 3 [plainTx 21 1 2 5 1 600])) \<subseteq> F')
   \<and> map_of (mAccountStates (queueOf [] [{21}, {}] 0)) 1 = None"
proof -
  have s: "shift queueAged = Some (queueOf [] [{21}, {}] 0)"
    by (simp add: shift_def shiftAccount_def shiftEvict_def bannedFront_emplace_def
        releaseFeeMaybeEraseAccountState_def Let_def u64_def
        queueAged_def queueOf_def stateOf_def plainTx_def)
  have m: "map_of (mAccountStates queueAged) 1 = Some (stateOf 0 1 3 [plainTx 21 1 2 5 1 600])"
    by (simp add: queueAged_def queueOf_def)
  have n: "mTransactions (stateOf 0 1 3 [plainTx 21 1 2 5 1 600]) \<noteq> []"
    by (simp add: stateOf_def)
  have d: "mAge (stateOf 0 1 3 [plainTx 21 1 2 5 1 600]) + 1 = mPendingDepth queueAged"
    by (simp add: queueAged_def queueOf_def stateOf_def)
  from shift_evicts_aged_account [OF s m n d]
  have "\<exists>F'. mBannedTransactions (queueOf [] [{21}, {}] 0)
               = F' # butlast (mBannedTransactions queueAged)
          \<and> getFullHash ` set (mTransactions (stateOf 0 1 3 [plainTx 21 1 2 5 1 600])) \<subseteq> F'"
    by (elim exE conjE) (intro exI conjI; assumption)
  with s m d show ?thesis by (simp add: queueOf_def)
qed


subsection \<open>C4: transactions applied by the ledger\<close>

text \<open>
  Claim C4 says that nothing changes for an account whose head sequence number is above
  the highest applied one. Its queue, age and operation count are indeed unchanged, but
  its total fees fall when the same call drops a transaction of another account whose fee
  it pays: below, account 1 (head 7, applied 5) pays for the applied transaction of
  account 3, and its total moves from 15 to 10.
\<close>

theorem removeApplied_total_fees_counterexample:
  "removeApplied [plainTx 53 1 1 5 1 10, plainTx 52 3 1 1 1 5] queuePaid
     = Some (queueOf [(1, stateOf 10 1 0 [plainTx 51 1 1 7 1 10])] [{}, {}] 1)
   \<and> map_of (seqByAccount [plainTx 53 1 1 5 1 10, plainTx 52 3 1 1 1 5]) 1 = Some 5
   \<and> map_of (mAccountStates queuePaid) 1 = Some (stateOf 15 1 0 [plainTx 51 1 1 7 1 10])
   \<and> getSeqNum (hd (mTransactions (stateOf 15 1 0 [plainTx 51 1 1 7 1 10]))) > 5
   \<and> mTotalFees_i (getAccountTransactionQueueInfo queuePaid 1) = 15
   \<and> mTotalFees_i (getAccountTransactionQueueInfo
        (queueOf [(1, stateOf 10 1 0 [plainTx 51 1 1 7 1 10])] [{}, {}] 1) 1) = 10"
  by (simp add: removeApplied_def seqByAccount_def removeAppliedAccount_def findBySeq_def
      dropTransactions_def dropOne_def releaseFeeMaybeEraseAccountState_def Let_def u64_def
      int64_succ_def INT64_MAX_def INT64_MIN_def
      getAccountTransactionQueueInfo_def queuePaid_def queueOf_def stateOf_def plainTx_def)

text \<open>
  Claim C4, amended. Let \<open>a\<close> have a non-empty (contiguous) queue and be the source of an
  applied transaction, and let \<open>m\<close> be the highest applied sequence number of \<open>a\<close> (the
  \<^verbatim>\<open>std::map\<close> value starts at 0). The loop of \<^verbatim>\<open>removeApplied\<close> runs over the entries \<open>pre\<close>,
  then \<open>(a, m)\<close>, then \<open>post\<close>; \<open>q1\<close> and \<open>q2\<close> are the queue before and after the
  iteration for \<open>a\<close>, which finds the queue, age and operation count of \<open>a\<close> as they
  were at the start.
  \<^item> If the head sequence number is above \<open>m\<close>, the iteration changes nothing and at
    the end the queue, age and operation count of \<open>a\<close> are unchanged (its total fees
    may have fallen by fees released for other accounts' transactions).
  \<^item> Otherwise, and with a last queued sequence number below \<^verbatim>\<open>INT64_MAX\<close> (at
    \<^verbatim>\<open>INT64_MAX\<close> the sum of line 68 overflows), exactly the transactions with sequence
    number at most \<open>m\<close> are dropped: their fees are released on their fee sources, the operation counts of \<open>a\<close> and of
    the queue fall by their operations, and the age of \<open>a\<close> is 0 (the entry is erased
    when nothing is kept and its total is 0).
  \<^item> In both cases the ban ring is unchanged.
\<close>

theorem removeApplied_account:
  assumes "removeApplied appliedTxs q = Some q'"
    and "map_of (mAccountStates q) a = Some st"
    and "mTransactions st \<noteq> []" and "contiguous (mTransactions st)"
    and "a \<in> getSourceID ` set appliedTxs"
    and "m = Max (insert 0 (getSeqNum ` {t \<in> set appliedTxs. getSourceID t = a}))"
    and "dropped = filter (\<lambda>t. getSeqNum t \<le> m) (mTransactions st)"
    and "kept = filter (\<lambda>t. \<not> getSeqNum t \<le> m) (mTransactions st)"
  shows "\<exists>pre post q1 q2 st1.
       seqByAccount appliedTxs = pre @ (a, m) # post
     \<and> a \<notin> fst ` set pre \<and> a \<notin> fst ` set post
     \<and> forEach removeAppliedAccount pre q = Some q1
     \<and> removeAppliedAccount (a, m) q1 = Some q2
     \<and> forEach removeAppliedAccount post q2 = Some q'
     \<and> map_of (mAccountStates q1) a = Some st1
     \<and> mTransactions st1 = mTransactions st \<and> mAge st1 = mAge st
     \<and> mQueueSizeOps st1 = mQueueSizeOps st
     \<and> mBannedTransactions q' = mBannedTransactions q
     \<and> (m < getSeqNum (hd (mTransactions st)) \<longrightarrow>
           q2 = q1
           \<and> (\<exists>st'. map_of (mAccountStates q') a = Some st'
                 \<and> mTransactions st' = mTransactions st \<and> mAge st' = mAge st
                 \<and> mQueueSizeOps st' = mQueueSizeOps st))
     \<and> (getSeqNum (hd (mTransactions st)) \<le> m
          \<and> getSeqNum (last (mTransactions st)) < INT64_MAX \<longrightarrow>
           map_of (mAccountStates q2) a =
             (if kept = []
              then if mTotalFees st1 - feesOn a dropped = 0 then None
                   else Some \<lparr>mTotalFees = mTotalFees st1 - feesOn a dropped,
                              mQueueSizeOps = u64 (mQueueSizeOps st - opsOf dropped),
                              mAge = 0, mTransactions = []\<rparr>
              else Some \<lparr>mTotalFees = mTotalFees st1 - feesOn a dropped,
                         mQueueSizeOps = u64 (mQueueSizeOps st - opsOf dropped),
                         mAge = 0, mTransactions = kept\<rparr>)
           \<and> (\<forall>b. b \<noteq> a \<longrightarrow> map_of (mAccountStates q2) b =
                 (case map_of (mAccountStates q1) b of
                    None \<Rightarrow> None
                  | Some sb \<Rightarrow>
                      if mTransactions sb = []
                         \<and> (\<exists>t \<in> set dropped. getFeeSourceID t = b)
                         \<and> mTotalFees sb = feesOn b dropped
                      then None
                      else Some (sb\<lparr>mTotalFees := mTotalFees sb - feesOn b dropped\<rparr>)))
           \<and> mQueueSizeOps_q q2 = u64 (mQueueSizeOps_q q1 - opsOf dropped)
           \<and> (case map_of (mAccountStates q') a of
                 None \<Rightarrow> kept = []
               | Some st' \<Rightarrow> mTransactions st' = kept \<and> mAge st' = 0
                   \<and> mQueueSizeOps st' = u64 (mQueueSizeOps st - opsOf dropped)))"
proof -
  let ?txs = "mTransactions st"
  from seqByAccount_entry [OF assms(5)] assms(6) obtain pre post where
    keys: "seqByAccount appliedTxs = pre @ (a, m) # post"
    and npre: "a \<notin> fst ` set pre" and npost: "a \<notin> fst ` set post" by blast
  from assms(1) keys have "forEach removeAppliedAccount (pre @ (a, m) # post) q = Some q'"
    by (simp add: removeApplied_def)
  then obtain q1 q2 where f1: "forEach removeAppliedAccount pre q = Some q1"
    and ra: "removeAppliedAccount (a, m) q1 = Some q2"
    and f2: "forEach removeAppliedAccount post q2 = Some q'"
    by (auto simp add: forEach_append split: option.splits)
  \<comment> \<open>the entries handled before \<open>a\<close>\<close>
  have i0: "case map_of (mAccountStates q) a of
           None \<Rightarrow> ?txs = []
         | Some sa \<Rightarrow> mTransactions sa = ?txs \<and> mAge sa = mAge st
                     \<and> mQueueSizeOps sa = mQueueSizeOps st
                     \<and> (?txs = [] \<longrightarrow> mTotalFees sa \<noteq> 0)"
    using assms(2,3) by simp
  note k1 = forEach_removeApplied_keeps [OF f1 npre i0]
  with assms(3) obtain st1 where m1: "map_of (mAccountStates q1) a = Some st1"
    and e1: "mTransactions st1 = ?txs" "mAge st1 = mAge st"
      "mQueueSizeOps st1 = mQueueSizeOps st"
    by (cases "map_of (mAccountStates q1) a") auto
  from k1 have r1: "mBannedTransactions q1 = mBannedTransactions q" by simp
  have ne1: "mTransactions st1 \<noteq> []" using e1 assms(3) by simp
  have co1: "contiguous (mTransactions st1)" using e1 assms(4) by simp
  \<comment> \<open>the head is above the applied sequence numbers\<close>
  have skip: "q2 = q1
           \<and> (\<exists>st'. map_of (mAccountStates q') a = Some st'
                 \<and> mTransactions st' = ?txs \<and> mAge st' = mAge st
                 \<and> mQueueSizeOps st' = mQueueSizeOps st)
           \<and> mBannedTransactions q' = mBannedTransactions q"
    if h: "m < getSeqNum (hd ?txs)"
  proof -
    from h e1 have "m < getSeqNum (hd (mTransactions st1))" by simp
    from removeAppliedAccount_skip [OF m1 ne1 this] ra have q2: "q2 = q1" by simp
    have i2: "case map_of (mAccountStates q2) a of
           None \<Rightarrow> ?txs = []
         | Some sa \<Rightarrow> mTransactions sa = ?txs \<and> mAge sa = mAge st
                     \<and> mQueueSizeOps sa = mQueueSizeOps st
                     \<and> (?txs = [] \<longrightarrow> mTotalFees sa \<noteq> 0)"
      using q2 m1 e1 assms(3) by simp
    note k2 = forEach_removeApplied_keeps [OF f2 npost i2]
    with assms(3) have "\<exists>st'. map_of (mAccountStates q') a = Some st'
                 \<and> mTransactions st' = ?txs \<and> mAge st' = mAge st
                 \<and> mQueueSizeOps st' = mQueueSizeOps st"
      by (cases "map_of (mAccountStates q') a") auto
    with q2 k2 r1 show ?thesis by simp
  qed
  \<comment> \<open>the head is at or below the applied sequence numbers\<close>
  have drop: "map_of (mAccountStates q2) a =
             (if kept = []
              then if mTotalFees st1 - feesOn a dropped = 0 then None
                   else Some \<lparr>mTotalFees = mTotalFees st1 - feesOn a dropped,
                              mQueueSizeOps = u64 (mQueueSizeOps st - opsOf dropped),
                              mAge = 0, mTransactions = []\<rparr>
              else Some \<lparr>mTotalFees = mTotalFees st1 - feesOn a dropped,
                         mQueueSizeOps = u64 (mQueueSizeOps st - opsOf dropped),
                         mAge = 0, mTransactions = kept\<rparr>)
           \<and> (\<forall>b. b \<noteq> a \<longrightarrow> map_of (mAccountStates q2) b =
                 (case map_of (mAccountStates q1) b of
                    None \<Rightarrow> None
                  | Some sb \<Rightarrow>
                      if mTransactions sb = []
                         \<and> (\<exists>t \<in> set dropped. getFeeSourceID t = b)
                         \<and> mTotalFees sb = feesOn b dropped
                      then None
                      else Some (sb\<lparr>mTotalFees := mTotalFees sb - feesOn b dropped\<rparr>)))
           \<and> mQueueSizeOps_q q2 = u64 (mQueueSizeOps_q q1 - opsOf dropped)
           \<and> (case map_of (mAccountStates q') a of
                 None \<Rightarrow> kept = []
               | Some st' \<Rightarrow> mTransactions st' = kept \<and> mAge st' = 0
                   \<and> mQueueSizeOps st' = u64 (mQueueSizeOps st - opsOf dropped))
           \<and> mBannedTransactions q' = mBannedTransactions q"
    if h: "getSeqNum (hd ?txs) \<le> m" and lb: "getSeqNum (last ?txs) < INT64_MAX"
  proof -
    from h e1 have h1: "getSeqNum (hd (mTransactions st1)) \<le> m" by simp
    from lb e1 have lb1: "getSeqNum (last (mTransactions st1)) < INT64_MAX" by simp
    note d = removeAppliedAccount_drop [OF ra m1 ne1 co1 h1 lb1,
        unfolded e1 assms(7) [symmetric] assms(8) [symmetric]]
    have others: "map_of (mAccountStates q2) b =
                 (case map_of (mAccountStates q1) b of
                    None \<Rightarrow> None
                  | Some sb \<Rightarrow>
                      if mTransactions sb = []
                         \<and> (\<exists>t \<in> set dropped. getFeeSourceID t = b)
                         \<and> mTotalFees sb = feesOn b dropped
                      then None
                      else Some (sb\<lparr>mTotalFees := mTotalFees sb - feesOn b dropped\<rparr>))"
      if "b \<noteq> a" for b
      using d(2) [OF that] by (simp add: released_def split: option.splits)
    have i2: "case map_of (mAccountStates q2) a of
           None \<Rightarrow> kept = []
         | Some sa \<Rightarrow> mTransactions sa = kept \<and> mAge sa = 0
                     \<and> mQueueSizeOps sa = u64 (mQueueSizeOps st - opsOf dropped)
                     \<and> (kept = [] \<longrightarrow> mTotalFees sa \<noteq> 0)"
      unfolding d(1) by simp
    note k2 = forEach_removeApplied_keeps [OF f2 npost i2]
    then have fin: "case map_of (mAccountStates q') a of
                 None \<Rightarrow> kept = []
               | Some st' \<Rightarrow> mTransactions st' = kept \<and> mAge st' = 0
                   \<and> mQueueSizeOps st' = u64 (mQueueSizeOps st - opsOf dropped)"
      by (cases "map_of (mAccountStates q') a") auto
    from k2 d(4) r1 have ring: "mBannedTransactions q' = mBannedTransactions q" by simp
    from d(1) d(3) others fin ring show ?thesis by simp
  qed
  have ring: "mBannedTransactions q' = mBannedTransactions q"
    by (rule removeApplied_ring [OF assms(1)])
  show ?thesis
    apply (rule exI [of _ pre], rule exI [of _ post], rule exI [of _ q1], rule exI [of _ q2],
        rule exI [of _ st1])
    using keys npre npost f1 ra f2 m1 e1 ring skip drop
    by (intro conjI impI) simp_all
qed

text \<open>Scenario 7 of the spec: with 7, 8 and 9 queued and 8 applied, 9 is kept, the age is 0
  and the ring is untouched.\<close>

theorem removeApplied_account_witness:
  "removeApplied [plainTx 62 1 1 8 1 100] queue789
     = Some (queueOf [(1, stateOf 100 1 0 [plainTx 63 1 1 9 1 100])] [{}, {}] 1)
   \<and> Max (insert 0 (getSeqNum ` {t \<in> set [plainTx 62 1 1 8 1 100]. getSourceID t = 1})) = 8
   \<and> contiguous [plainTx 61 1 1 7 1 100, plainTx 62 1 1 8 1 100, plainTx 63 1 1 9 1 100]
   \<and> getSeqNum (last [plainTx 61 1 1 7 1 100, plainTx 62 1 1 8 1 100, plainTx 63 1 1 9 1 100])
       < INT64_MAX
   \<and> filter (\<lambda>t. \<not> getSeqNum t \<le> 8)
        [plainTx 61 1 1 7 1 100, plainTx 62 1 1 8 1 100, plainTx 63 1 1 9 1 100]
       = [plainTx 63 1 1 9 1 100]
   \<and> mBannedTransactions (queueOf [(1, stateOf 100 1 0 [plainTx 63 1 1 9 1 100])] [{}, {}] 1)
       = mBannedTransactions queue789"
proof -
  have r: "removeApplied [plainTx 62 1 1 8 1 100] queue789
     = Some (queueOf [(1, stateOf 100 1 0 [plainTx 63 1 1 9 1 100])] [{}, {}] 1)"
    by (simp add: removeApplied_def seqByAccount_def removeAppliedAccount_def findBySeq_def
        dropTransactions_def dropOne_def releaseFeeMaybeEraseAccountState_def Let_def u64_def
        int64_succ_def INT64_MAX_def INT64_MIN_def
        queue789_def queueOf_def stateOf_def plainTx_def)
  have m: "map_of (mAccountStates queue789) 1
      = Some (stateOf 300 3 2
                 [plainTx 61 1 1 7 1 100, plainTx 62 1 1 8 1 100, plainTx 63 1 1 9 1 100])"
    by (simp add: queue789_def queueOf_def)
  have n: "mTransactions (stateOf 300 3 2
                 [plainTx 61 1 1 7 1 100, plainTx 62 1 1 8 1 100, plainTx 63 1 1 9 1 100]) \<noteq> []"
    by (simp add: stateOf_def)
  have c: "contiguous (mTransactions (stateOf 300 3 2
                 [plainTx 61 1 1 7 1 100, plainTx 62 1 1 8 1 100, plainTx 63 1 1 9 1 100]))"
    by (simp add: stateOf_def plainTx_def)
  have a: "1 \<in> getSourceID ` set [plainTx 62 1 1 8 1 100]" by (simp add: plainTx_def)
  have x: "Max (insert 0 (getSeqNum ` {t \<in> set [plainTx 62 1 1 8 1 100]. getSourceID t = 1})) = 8"
    by (simp add: plainTx_def)
  from removeApplied_account [OF r m n c a refl refl refl]
  have "mBannedTransactions (queueOf [(1, stateOf 100 1 0 [plainTx 63 1 1 9 1 100])] [{}, {}] 1)
       = mBannedTransactions queue789"
    by (elim exE conjE)
  with r x c show ?thesis by (simp add: stateOf_def plainTx_def INT64_MAX_def)
qed


end
